theory Spec2Isabelle
  imports Complex_Main "HOL-Library.Word" "HOL-Library.Signed_Division"
    "HOL-Library.Monad_Syntax"
begin

section \<open>Conventions\<close>

text \<open>
  The modules of the plugin compute on C++ \<^verbatim>\<open>float\<close>. Sample values, envelope levels and
  time constants are modelled as \<^typ>\<open>real\<close>: every comparison, assignment and branch of the
  source is kept, rounding is not modelled. C++ \<^verbatim>\<open>int\<close> is \<^typ>\<open>int\<close> where the values
  stay far from the 32-bit range, and \<^verbatim>\<open>size_t\<close> is a 64-bit word where the source relies on
  unsigned wrap-around.

  \<^verbatim>\<open>math::clamp\<close> belongs to the host SDK (\<^verbatim>\<open>rack.hpp\<close>, \<^verbatim>\<open>include/math.hpp\<close>), not to
  the repository. The SDK defines it, for \<^verbatim>\<open>int\<close> and for \<^verbatim>\<open>float\<close>, as
  \<^verbatim>\<open>max(min(x, b), a)\<close> with the note that it returns \<^verbatim>\<open>a\<close> when \<^verbatim>\<open>b < a\<close>.
\<close>

definition clamp :: "'a::linorder \<Rightarrow> 'a \<Rightarrow> 'a \<Rightarrow> 'a" where
  "clamp x a b = max (min x b) a"

section \<open>ADSR envelope (ChordPadSynth.cpp, ChordPluckSynth.cpp)\<close>

text \<open>
  Both files declare the same \<^verbatim>\<open>struct ADSR\<close>; they differ in the default field values
  and in \<^verbatim>\<open>gate\<close>. The field \<^verbatim>\<open>output\<close> is called \<open>envOutput\<close> here.
\<close>

datatype adsr_state = IDLE | ATTACK | DECAY | SUSTAIN | RELEASE

record ADSR =
  attack :: real
  decay :: real
  sustain :: real
  release :: real
  state :: adsr_state
  envOutput :: real

datatype adsr_variant = Pad | Pluck

definition ADSR_init :: "adsr_variant \<Rightarrow> ADSR" where
  "ADSR_init v =
     (case v of
        Pad \<Rightarrow> \<lparr>attack = 0.01, decay = 0.1, sustain = 0.7, release = 0.2,
                state = IDLE, envOutput = 0\<rparr>
      | Pluck \<Rightarrow> \<lparr>attack = 0.001, decay = 0.1, sustain = 0, release = 0.2,
                  state = IDLE, envOutput = 0\<rparr>)"

definition setAttack :: "real \<Rightarrow> ADSR \<Rightarrow> ADSR" where
  "setAttack a e = e\<lparr>attack := max 0.001 a\<rparr>"

definition setDecay :: "real \<Rightarrow> ADSR \<Rightarrow> ADSR" where
  "setDecay d e = e\<lparr>decay := max 0.001 d\<rparr>"

definition setSustain :: "real \<Rightarrow> ADSR \<Rightarrow> ADSR" where
  "setSustain s e = e\<lparr>sustain := clamp s 0 1\<rparr>"

definition setRelease :: "real \<Rightarrow> ADSR \<Rightarrow> ADSR" where
  "setRelease r e = e\<lparr>release := max 0.001 r\<rparr>"

text \<open>\<^verbatim>\<open>ADSR::gate\<close> of ChordPadSynth.cpp. The parameter \<^verbatim>\<open>sampleTime\<close> is unused there.\<close>

definition pad_gate :: "bool \<Rightarrow> real \<Rightarrow> ADSR \<Rightarrow> ADSR" where
  "pad_gate on sampleTime e =
     (if on \<and> state e = IDLE then e\<lparr>state := ATTACK\<rparr>
      else if \<not> on \<and> state e \<noteq> IDLE \<and> state e \<noteq> RELEASE then e\<lparr>state := RELEASE\<rparr>
      else e)"

text \<open>\<^verbatim>\<open>ADSR::gate\<close> of ChordPluckSynth.cpp: every gate-on retriggers.\<close>

definition pluck_gate :: "bool \<Rightarrow> real \<Rightarrow> ADSR \<Rightarrow> ADSR" where
  "pluck_gate on sampleTime e =
     (if on then e\<lparr>state := ATTACK, envOutput := 0\<rparr>
      else if \<not> on \<and> state e \<noteq> IDLE \<and> state e \<noteq> RELEASE then e\<lparr>state := RELEASE\<rparr>
      else e)"

definition ADSR_gate :: "adsr_variant \<Rightarrow> bool \<Rightarrow> real \<Rightarrow> ADSR \<Rightarrow> ADSR" where
  "ADSR_gate v = (case v of Pad \<Rightarrow> pad_gate | Pluck \<Rightarrow> pluck_gate)"

text \<open>\<^verbatim>\<open>ADSR::process\<close>, identical in both files.\<close>

definition ADSR_process :: "real \<Rightarrow> ADSR \<Rightarrow> ADSR" where
  "ADSR_process sampleTime e =
     (case state e of
        IDLE \<Rightarrow> e\<lparr>envOutput := 0\<rparr>
      | ATTACK \<Rightarrow>
          (let out = envOutput e + sampleTime / attack e
           in if out \<ge> 1 then e\<lparr>envOutput := 1, state := DECAY\<rparr> else e\<lparr>envOutput := out\<rparr>)
      | DECAY \<Rightarrow>
          (let out = envOutput e - sampleTime / decay e
           in if out \<le> sustain e then e\<lparr>envOutput := sustain e, state := SUSTAIN\<rparr>
              else e\<lparr>envOutput := out\<rparr>)
      | SUSTAIN \<Rightarrow> e\<lparr>envOutput := sustain e\<rparr>
      | RELEASE \<Rightarrow>
          (let out = envOutput e - sampleTime / release e
           in if out \<le> 0 then e\<lparr>envOutput := 0, state := IDLE\<rparr> else e\<lparr>envOutput := out\<rparr>))"

text \<open>
  What a module does to its envelope between two samples: parameter updates through the
  setters, gate events, and one \<^verbatim>\<open>process\<close> call per sample.
\<close>

datatype adsr_event =
    Gate bool real
  | Process real
  | SetAttack real
  | SetDecay real
  | SetSustain real
  | SetRelease real

fun ADSR_step :: "adsr_variant \<Rightarrow> adsr_event \<Rightarrow> ADSR \<Rightarrow> ADSR" where
  "ADSR_step v (Gate on sampleTime) e = ADSR_gate v on sampleTime e"
| "ADSR_step v (Process sampleTime) e = ADSR_process sampleTime e"
| "ADSR_step v (SetAttack a) e = setAttack a e"
| "ADSR_step v (SetDecay d) e = setDecay d e"
| "ADSR_step v (SetSustain s) e = setSustain s e"
| "ADSR_step v (SetRelease r) e = setRelease r e"

definition ADSR_run :: "adsr_variant \<Rightarrow> adsr_event list \<Rightarrow> ADSR" where
  "ADSR_run v evs = fold (ADSR_step v) evs (ADSR_init v)"

text \<open>The host passes \<^verbatim>\<open>args.sampleTime\<close>, the reciprocal of the sample rate.\<close>

fun sampleTime_ok :: "adsr_event \<Rightarrow> bool" where
  "sampleTime_ok (Process sampleTime) = (0 \<le> sampleTime)"
| "sampleTime_ok _ = True"

definition ADSR_inv :: "ADSR \<Rightarrow> bool" where
  "ADSR_inv e \<longleftrightarrow>
     0 < attack e \<and> 0 < decay e \<and> 0 < release e \<and> 0 \<le> sustain e \<and> sustain e \<le> 1 \<and>
     0 \<le> envOutput e \<and> envOutput e \<le> 1 \<and> (state e = IDLE \<longrightarrow> envOutput e = 0)"

subsection \<open>The envelope stays in range\<close>

lemma ADSR_inv_init: "ADSR_inv (ADSR_init v)"
  by (cases v) (simp_all add: ADSR_init_def ADSR_inv_def)

lemma ADSR_inv_setters:
  assumes "ADSR_inv e"
  shows "ADSR_inv (setAttack a e)" "ADSR_inv (setDecay d e)"
    "ADSR_inv (setSustain s e)" "ADSR_inv (setRelease r e)"
  using assms
  by (simp_all add: ADSR_inv_def setAttack_def setDecay_def setSustain_def setRelease_def
      clamp_def)

lemma ADSR_inv_gate:
  assumes "ADSR_inv e"
  shows "ADSR_inv (ADSR_gate v on sampleTime e)"
  using assms
  by (cases v) (auto simp: ADSR_inv_def ADSR_gate_def pad_gate_def pluck_gate_def)

lemma ADSR_inv_process:
  assumes inv: "ADSR_inv e" and dt: "0 \<le> sampleTime"
  shows "ADSR_inv (ADSR_process sampleTime e)"
proof -
  from inv dt have q: "0 \<le> sampleTime / attack e" "0 \<le> sampleTime / decay e"
    "0 \<le> sampleTime / release e"
    by (simp_all add: ADSR_inv_def)
  show ?thesis
  proof (cases "state e")
    case IDLE
    with inv show ?thesis by (simp add: ADSR_process_def ADSR_inv_def)
  next
    case ATTACK
    with inv q show ?thesis by (simp add: ADSR_process_def ADSR_inv_def Let_def)
  next
    case DECAY
    with inv q show ?thesis by (auto simp: ADSR_process_def ADSR_inv_def Let_def)
  next
    case SUSTAIN
    with inv show ?thesis by (simp add: ADSR_process_def ADSR_inv_def)
  next
    case RELEASE
    with inv q show ?thesis by (auto simp: ADSR_process_def ADSR_inv_def Let_def)
  qed
qed

lemma ADSR_inv_step:
  assumes "ADSR_inv e" and "sampleTime_ok ev"
  shows "ADSR_inv (ADSR_step v ev e)"
  using assms
  by (cases ev) (simp_all add: ADSR_inv_setters ADSR_inv_gate ADSR_inv_process)

lemma ADSR_inv_fold:
  assumes "ADSR_inv e" and "list_all sampleTime_ok evs"
  shows "ADSR_inv (fold (ADSR_step v) evs e)"
  using assms
  by (induction evs arbitrary: e) (simp_all add: ADSR_inv_step)

lemma ADSR_process_sustain:
  "state (ADSR_process sampleTime e) = SUSTAIN \<Longrightarrow>
   envOutput (ADSR_process sampleTime e) = sustain (ADSR_process sampleTime e)"
  by (cases "state e") (auto simp: ADSR_process_def Let_def split: if_splits)

text \<open>
  C2. Start from a freshly constructed envelope of either variant and apply any sequence
  of setter calls, gate events and \<^verbatim>\<open>process\<close> calls with non-negative sample times.
  After every \<^verbatim>\<open>process\<close> call (the last event of the sequence below, after an arbitrary
  prefix) the output lies in \<open>[0, 1]\<close>, is exactly \<open>0\<close> if the state is \<open>IDLE\<close>, and
  is exactly the sustain level if the state is \<open>SUSTAIN\<close>.
\<close>

theorem ADSR_output_in_range:
  assumes "list_all sampleTime_ok evs" and "0 \<le> sampleTime"
  shows "let e = ADSR_run v (evs @ [Process sampleTime])
         in 0 \<le> envOutput e \<and> envOutput e \<le> 1 \<and>
            (state e = IDLE \<longrightarrow> envOutput e = 0) \<and>
            (state e = SUSTAIN \<longrightarrow> envOutput e = sustain e)"
proof -
  define e0 where "e0 = fold (ADSR_step v) evs (ADSR_init v)"
  have inv0: "ADSR_inv e0"
    unfolding e0_def using assms(1) by (intro ADSR_inv_fold ADSR_inv_init)
  have run: "ADSR_run v (evs @ [Process sampleTime]) = ADSR_process sampleTime e0"
    by (simp add: ADSR_run_def e0_def)
  have "ADSR_inv (ADSR_process sampleTime e0)"
    using inv0 assms(2) by (rule ADSR_inv_process)
  then show ?thesis
    unfolding run Let_def using ADSR_process_sustain [of sampleTime e0]
    by (simp add: ADSR_inv_def)
qed

theorem ADSR_output_in_range_witness:
  "list_all sampleTime_ok [Gate True 1, Process 1] \<and> (0::real) \<le> 1 \<and>
   state (ADSR_run Pad ([Gate True 1, Process 1] @ [Process 1])) = SUSTAIN \<and>
   envOutput (ADSR_run Pad ([Gate True 1, Process 1] @ [Process 1])) = 7 / 10 \<and>
   sustain (ADSR_run Pad ([Gate True 1, Process 1] @ [Process 1])) = 7 / 10"
  using ADSR_output_in_range [of "[Gate True 1, Process 1]" 1 Pad]
  by (simp add: ADSR_run_def ADSR_init_def ADSR_gate_def pad_gate_def ADSR_process_def)

subsection \<open>Gate-on policy of the two variants\<close>










section \<open>Delay line and reverb (StereoEffects.cpp)\<close>

text \<open>
  \<^verbatim>\<open>struct DelayLine\<close>: a heap array of \<^verbatim>\<open>size\<close> floats and a write cursor, both
  \<^verbatim>\<open>size_t\<close>. The field \<^verbatim>\<open>size\<close> is called \<open>size_dl\<close> here. The array is a list of
  length \<open>size_dl\<close>.
\<close>

type_synonym size_t = "64 word"

record DelayLine =
  buffer :: "real list"
  size_dl :: size_t
  writePos :: size_t

definition DelayLine_new :: "size_t \<Rightarrow> DelayLine" where
  "DelayLine_new maxSize = \<lparr>buffer = replicate (unat maxSize) 0, size_dl = maxSize, writePos = 0\<rparr>"

definition push :: "real \<Rightarrow> DelayLine \<Rightarrow> DelayLine" where
  "push sample d =
     d\<lparr>buffer := (buffer d)[unat (writePos d) := sample],
       writePos := (writePos d + 1) mod size_dl d\<rparr>"

definition read :: "size_t \<Rightarrow> DelayLine \<Rightarrow> real" where
  "read delay d =
     (let delay' = (if delay \<ge> size_dl d then size_dl d - 1 else delay);
          readPos = (writePos d - delay' + size_dl d) mod size_dl d
      in buffer d ! unat readPos)"

text \<open>
  The state the constructor and \<^verbatim>\<open>push\<close> maintain: the array has \<open>size_dl\<close> cells, the
  capacity is positive and the cursor is inside the array. An array of \<open>size_dl\<close> floats
  that fits a 64-bit address space has fewer than \<open>2^62\<close> cells.
\<close>

definition DelayLine_wf :: "DelayLine \<Rightarrow> bool" where
  "DelayLine_wf d \<longleftrightarrow>
     length (buffer d) = unat (size_dl d) \<and> 0 < size_dl d \<and> writePos d < size_dl d \<and>
     unat (size_dl d) < 2 ^ 62"

subsection \<open>Reading back what was written\<close>

text \<open>
  \<^verbatim>\<open>writePos - delay + size\<close> is computed on \<^verbatim>\<open>size_t\<close>: the difference may wrap, the sum
  wraps back.
\<close>

lemma unat_readPos:
  fixes a d s :: size_t
  assumes "a < s" "d < s" "unat s < 2 ^ 62"
  shows "unat ((a - d + s) mod s) = (unat a + unat s - unat d) mod unat s"
proof -
  have as: "unat (a + s) = unat a + unat s"
    using assms by (intro unat_add_lem [THEN iffD1]) (simp add: word_less_nat_alt)
  have "d \<le> a + s"
    using assms as by (simp add: word_le_nat_alt word_less_nat_alt)
  then have "unat (a + s - d) = unat a + unat s - unat d"
    using as by (simp add: unat_sub)
  moreover have "a - d + s = a + s - d" by simp
  ultimately show ?thesis by (simp only: unat_mod)
qed

lemma unat_writePos_push:
  assumes "DelayLine_wf d"
  shows "unat (writePos (push x d)) = (unat (writePos d) + 1) mod unat (size_dl d)"
proof -
  have "unat (writePos d + 1) = unat (writePos d) + unat (1 :: size_t)"
    using assms by (intro unat_add_lem [THEN iffD1]) (simp add: DelayLine_wf_def word_less_nat_alt)
  then show ?thesis by (simp add: push_def unat_mod)
qed

lemma push_wf:
  assumes "DelayLine_wf d"
  shows "DelayLine_wf (push x d)"
proof -
  have "0 < unat (size_dl d)" using assms by (simp add: DelayLine_wf_def word_less_nat_alt)
  then have "unat (writePos (push x d)) < unat (size_dl d)"
    by (simp add: unat_writePos_push [OF assms])
  then show ?thesis
    using assms by (simp add: DelayLine_wf_def word_less_nat_alt push_def)
qed

lemma mod_step_shift: "((w + 1) mod S + i) mod S = (w + Suc i) mod (S::nat)"
proof -
  have "((w + 1) mod S + i) mod S = (w + 1 + i) mod S"
    by (rule mod_add_left_eq)
  then show ?thesis by simp
qed

lemma push_fields:
  "size_dl (push x d) = size_dl d" "buffer (push x d) = (buffer d)[unat (writePos d) := x]"
  by (simp_all add: push_def)

lemma fold_push_size: "size_dl (fold push xs d) = size_dl d"
  by (induction xs arbitrary: d) (simp_all add: push_fields)

lemma fold_push_wf: "DelayLine_wf d \<Longrightarrow> DelayLine_wf (fold push xs d)"
  by (induction xs arbitrary: d) (simp_all add: push_wf)

lemma fold_push_writePos:
  assumes "DelayLine_wf d"
  shows "unat (writePos (fold push xs d)) = (unat (writePos d) + length xs) mod unat (size_dl d)"
  using assms
proof (induction xs arbitrary: d)
  case Nil
  then show ?case by (simp add: DelayLine_wf_def word_less_nat_alt)
next
  case (Cons x xs)
  have "unat (writePos (fold push xs (push x d))) =
        (unat (writePos (push x d)) + length xs) mod unat (size_dl (push x d))"
    using Cons.prems by (intro Cons.IH push_wf)
  also have "\<dots> = ((unat (writePos d) + 1) mod unat (size_dl d) + length xs) mod unat (size_dl d)"
    by (simp add: unat_writePos_push [OF Cons.prems] push_fields)
  also have "\<dots> = (unat (writePos d) + Suc (length xs)) mod unat (size_dl d)"
    by (rule mod_step_shift)
  finally show ?case by simp
qed

lemma fold_push_untouched:
  assumes "DelayLine_wf d"
    and "\<forall>i < length xs. (unat (writePos d) + i) mod unat (size_dl d) \<noteq> p"
  shows "buffer (fold push xs d) ! p = buffer d ! p"
  using assms
proof (induction xs arbitrary: d)
  case Nil
  then show ?case by simp
next
  case (Cons x xs)
  have w: "unat (writePos d) < unat (size_dl d)"
    using Cons.prems(1) by (simp add: DelayLine_wf_def word_less_nat_alt)
  have p0: "unat (writePos d) \<noteq> p"
    using Cons.prems(2) [rule_format, of 0] w by simp
  have "\<forall>i < length xs. (unat (writePos (push x d)) + i) mod unat (size_dl (push x d)) \<noteq> p"
  proof (intro allI impI)
    fix i assume "i < length xs"
    then have "(unat (writePos d) + Suc i) mod unat (size_dl d) \<noteq> p"
      using Cons.prems(2) [rule_format, of "Suc i"] by simp
    then show "(unat (writePos (push x d)) + i) mod unat (size_dl (push x d)) \<noteq> p"
      by (simp only: unat_writePos_push [OF Cons.prems(1)] push_fields mod_step_shift simp_thms)
  qed
  then have "buffer (fold push xs (push x d)) ! p = buffer (push x d) ! p"
    using Cons.prems(1) by (intro Cons.IH push_wf)
  also have "\<dots> = buffer d ! p"
    using p0 by (simp add: push_fields)
  finally show ?case by simp
qed

lemma mod_shift_neq:
  fixes w j S :: nat
  assumes "w < S" "0 < j" "j < S"
  shows "(w + j) mod S \<noteq> w"
proof (cases "w + j < S")
  case True
  then show ?thesis using assms by simp
next
  case False
  then have "(w + j) mod S = w + j - S"
    using assms by (simp add: mod_if)
  then show ?thesis using assms False by simp
qed

lemma mod_shift_back:
  fixes w k S :: nat
  assumes "w < S" "k < S"
  shows "((w + k) mod S + S - k) mod S = w"
proof (cases "w + k < S")
  case True
  then show ?thesis using assms by simp
next
  case False
  then have "(w + k) mod S = w + k - S"
    using assms by (simp add: mod_if)
  then show ?thesis using assms False by simp
qed

text \<open>
  C8. In a delay line of capacity \<open>S\<close>, for every offset \<open>k\<close> with \<open>1 \<le> k \<le> S - 1\<close>:
  after \<^verbatim>\<open>push(x)\<close> and \<open>k - 1\<close> further pushes of arbitrary samples, \<^verbatim>\<open>read(k)\<close>
  returns \<open>x\<close>.
\<close>

theorem DelayLine_roundtrip:
  assumes wf: "DelayLine_wf d"
    and k: "1 \<le> k" "k \<le> unat (size_dl d) - 1"
    and xs: "length xs = k - 1"
  shows "read (of_nat k) (fold push xs (push x d)) = x"
proof -
  define S where "S = unat (size_dl d)"
  define w where "w = unat (writePos d)"
  define d1 where "d1 = push x d"
  define d2 where "d2 = fold push xs d1"
  have S: "w < S" "k < S" "S < 2 ^ 62"
    using wf k by (simp_all add: S_def w_def DelayLine_wf_def word_less_nat_alt)
  have wf1: "DelayLine_wf d1" and wf2: "DelayLine_wf d2"
    using wf by (simp_all add: d1_def d2_def push_wf fold_push_wf)
  have size2: "size_dl d2 = size_dl d"
    by (simp add: d2_def d1_def fold_push_size push_fields)
  have w1: "unat (writePos d1) = (w + 1) mod S"
    by (simp add: d1_def w_def S_def unat_writePos_push [OF wf])
  have w2: "unat (writePos d2) = (w + k) mod S"
  proof -
    have "unat (writePos d2) = ((w + 1) mod S + (k - 1)) mod S"
      using fold_push_writePos [OF wf1, of xs] xs w1
      by (simp add: d2_def d1_def push_fields S_def)
    also have "\<dots> = (w + 1 + (k - 1)) mod S"
      by (simp add: mod_add_left_eq)
    finally show ?thesis using k by simp
  qed
  have kept: "buffer d2 ! w = buffer d1 ! w"
    unfolding d2_def
  proof (rule fold_push_untouched [OF wf1], intro allI impI)
    fix i assume "i < length xs"
    then have "(w + Suc i) mod S \<noteq> w"
      using S xs by (intro mod_shift_neq) simp_all
    moreover have "unat (size_dl d1) = S"
      by (simp add: d1_def push_fields S_def)
    ultimately show "(unat (writePos d1) + i) mod unat (size_dl d1) \<noteq> w"
      by (simp only: w1 mod_step_shift simp_thms)
  qed
  have stored: "buffer d1 ! w = x"
    using wf S by (simp add: d1_def push_fields w_def S_def DelayLine_wf_def)
  have uk: "unat (of_nat k :: size_t) = k"
    using S by (simp add: unat_of_nat)
  have lt: "(of_nat k :: size_t) < size_dl d2"
    using S uk by (simp add: word_less_nat_alt size2 S_def)
  have "unat ((writePos d2 - of_nat k + size_dl d2) mod size_dl d2) =
        (unat (writePos d2) + unat (size_dl d2) - unat (of_nat k :: size_t)) mod unat (size_dl d2)"
    using wf2 lt by (intro unat_readPos) (simp_all add: DelayLine_wf_def)
  also have "\<dots> = ((w + k) mod S + S - k) mod S"
    by (simp add: w2 uk size2 S_def)
  also have "\<dots> = w"
    using S by (intro mod_shift_back)
  finally have pos: "unat ((writePos d2 - of_nat k + size_dl d2) mod size_dl d2) = w" .
  have "read (of_nat k) d2 = buffer d2 ! w"
    using lt pos by (simp add: read_def Let_def not_le [symmetric])
  then show ?thesis
    using kept stored by (simp add: d2_def d1_def)
qed

theorem DelayLine_roundtrip_witness:
  "DelayLine_wf (DelayLine_new 4) \<and> (1::nat) \<le> 2 \<and> 2 \<le> unat (size_dl (DelayLine_new 4)) - 1 \<and>
   length [5::real] = 2 - 1 \<and> read 2 (fold push [5] (push 7 (DelayLine_new 4))) = 7"
  using DelayLine_roundtrip [of "DelayLine_new 4" 2 "[5]" 7]
  by (simp add: DelayLine_wf_def DelayLine_new_def)

subsection \<open>SimpleReverb\<close>

text \<open>
  The casts \<^verbatim>\<open>(int)\<close> and \<^verbatim>\<open>(size_t)\<close> of a float truncate towards zero. The
  constructor allocates eight delay lines whose lengths derive from the sample rate;
  \<^verbatim>\<open>setFeedback\<close> stores its argument as it is; \<^verbatim>\<open>process\<close> runs the eight comb filters
  in index order. \<open>reverb_tick\<close> is what \<^verbatim>\<open>StereoEffects::process\<close> does to one channel's
  reverb per sample when the reverb is enabled: \<^verbatim>\<open>setFeedback(damping * 0.7f)\<close> followed by
  \<^verbatim>\<open>process(out)\<close>; \<open>reverb_run\<close> collects the outputs over a run of samples.
\<close>

definition NUM_DELAYS :: nat where
  "NUM_DELAYS = 8"

definition trunc_int :: "real \<Rightarrow> int" where
  "trunc_int x = (if 0 \<le> x then \<lfloor>x\<rfloor> else \<lceil>x\<rceil>)"

definition to_size_t :: "real \<Rightarrow> size_t" where
  "to_size_t x = word_of_int (trunc_int x)"

record SimpleReverb =
  delays :: "DelayLine list"
  delayTimes :: "real list"
  feedback :: real

definition SimpleReverb_new :: "real \<Rightarrow> SimpleReverb" where
  "SimpleReverb_new sampleRate =
     (let baseDelay = trunc_int (sampleRate * 0.03);
          times = map (\<lambda>c. real_of_int baseDelay * c) [1.0, 1.3, 1.7, 2.1, 2.3, 2.7, 3.1, 3.7]
      in \<lparr>delays = map (\<lambda>t. DelayLine_new (to_size_t (t * 2.0))) times,
          delayTimes = times, feedback = 0.5\<rparr>)"

definition setFeedback :: "real \<Rightarrow> SimpleReverb \<Rightarrow> SimpleReverb" where
  "setFeedback fb r = r\<lparr>feedback := fb\<rparr>"

definition comb_step :: "real \<Rightarrow> nat \<Rightarrow> SimpleReverb \<times> real \<Rightarrow> SimpleReverb \<times> real" where
  "comb_step input i =
     (\<lambda>(r, out).
        let delayed = read (to_size_t (delayTimes r ! i)) (delays r ! i)
        in (r\<lparr>delays := (delays r)[i := push (input + delayed * feedback r) (delays r ! i)]\<rparr>,
            out + delayed * (1 / real NUM_DELAYS)))"

definition SimpleReverb_process :: "real \<Rightarrow> SimpleReverb \<Rightarrow> SimpleReverb \<times> real" where
  "SimpleReverb_process input r = fold (comb_step input) [0..<NUM_DELAYS] (r, 0)"

definition reverb_tick :: "real \<times> real \<Rightarrow> SimpleReverb \<Rightarrow> SimpleReverb \<times> real" where
  "reverb_tick = (\<lambda>(damping, input) r. SimpleReverb_process input (setFeedback (damping * 0.7) r))"

fun reverb_run :: "SimpleReverb \<Rightarrow> (real \<times> real) list \<Rightarrow> real list" where
  "reverb_run r [] = []"
| "reverb_run r (x # xs) = (let (r', out) = reverb_tick x r in out # reverb_run r' xs)"

text \<open>Every cell of every delay line is within \<open>B\<close> of zero.\<close>

definition reverb_bounded :: "real \<Rightarrow> SimpleReverb \<Rightarrow> bool" where
  "reverb_bounded B r \<longleftrightarrow>
     length (delays r) = NUM_DELAYS \<and>
     (\<forall>d \<in> set (delays r). DelayLine_wf d \<and> (\<forall>v \<in> set (buffer d). \<bar>v\<bar> \<le> B))"

lemma read_in_buffer:
  assumes "DelayLine_wf d"
  shows "read delay d \<in> set (buffer d)"
proof -
  have "0 < unat (size_dl d)"
    using assms by (simp add: DelayLine_wf_def word_less_nat_alt)
  then have "unat (x mod size_dl d) < length (buffer d)" for x
    using assms by (simp add: unat_mod DelayLine_wf_def)
  then show ?thesis
    by (simp add: read_def Let_def)
qed

lemma push_bounded:
  assumes "\<forall>v \<in> set (buffer d). \<bar>v\<bar> \<le> B" and "\<bar>x\<bar> \<le> B"
  shows "\<forall>v \<in> set (buffer (push x d)). \<bar>v\<bar> \<le> B"
proof
  fix v assume "v \<in> set (buffer (push x d))"
  then have "v \<in> insert x (set (buffer d))"
    using set_update_subset_insert [of "buffer d" "unat (writePos d)" x]
    by (auto simp: push_fields)
  then show "\<bar>v\<bar> \<le> B" using assms by auto
qed

lemma comb_step_bounded:
  assumes rb: "reverb_bounded B r" and i: "i < NUM_DELAYS"
    and inp: "\<bar>input\<bar> \<le> M" and fb: "0 \<le> feedback r" "feedback r \<le> f"
    and B: "M + f * B \<le> B" "0 \<le> B"
    and res: "comb_step input i (r, out) = (r', out')"
  shows "reverb_bounded B r' \<and> feedback r' = feedback r \<and> \<bar>out'\<bar> \<le> \<bar>out\<bar> + B / 8"
proof -
  define d where "d = delays r ! i"
  define delayed where "delayed = read (to_size_t (delayTimes r ! i)) d"
  have din: "d \<in> set (delays r)"
    using rb i by (simp add: d_def reverb_bounded_def)
  then have wf: "DelayLine_wf d" and bd: "\<forall>v \<in> set (buffer d). \<bar>v\<bar> \<le> B"
    using rb by (simp_all add: reverb_bounded_def)
  have del: "\<bar>delayed\<bar> \<le> B"
    using read_in_buffer [OF wf] bd by (simp add: delayed_def)
  have "\<bar>delayed * feedback r\<bar> \<le> B * f"
    unfolding abs_mult using del fb by (intro mult_mono) simp_all
  then have x: "\<bar>input + delayed * feedback r\<bar> \<le> B"
    using inp B by (simp add: mult.commute)
  have r': "r' = r\<lparr>delays := (delays r)[i := push (input + delayed * feedback r) d]\<rparr>"
    and out': "out' = out + delayed * (1 / 8)"
    using res by (simp_all add: comb_step_def Let_def d_def delayed_def NUM_DELAYS_def)
  have "\<forall>e \<in> set (delays r'). DelayLine_wf e \<and> (\<forall>v \<in> set (buffer e). \<bar>v\<bar> \<le> B)"
  proof
    fix e assume "e \<in> set (delays r')"
    then have "e \<in> insert (push (input + delayed * feedback r) d) (set (delays r))"
      using set_update_subset_insert [of "delays r" i] by (auto simp: r')
    then show "DelayLine_wf e \<and> (\<forall>v \<in> set (buffer e). \<bar>v\<bar> \<le> B)"
      using rb push_wf [OF wf] push_bounded [OF bd x] by (auto simp: reverb_bounded_def)
  qed
  moreover have "length (delays r') = NUM_DELAYS"
    using rb by (simp add: r' reverb_bounded_def)
  moreover have "\<bar>out'\<bar> \<le> \<bar>out\<bar> + B / 8"
    using del by (simp add: out')
  ultimately show ?thesis
    by (simp add: reverb_bounded_def r')
qed

lemma fold_comb_step_bounded:
  assumes "reverb_bounded B r" and "\<forall>i \<in> set is. i < NUM_DELAYS"
    and "\<bar>input\<bar> \<le> M" and "0 \<le> feedback r" "feedback r \<le> f"
    and "M + f * B \<le> B" "0 \<le> B"
    and "fold (comb_step input) is (r, out) = (r', out')"
  shows "reverb_bounded B r' \<and> \<bar>out'\<bar> \<le> \<bar>out\<bar> + real (length is) * (B / 8)"
  using assms
proof (induction "is" arbitrary: r out)
  case Nil
  then show ?case by simp
next
  case (Cons i "is")
  obtain r1 out1 where s1: "comb_step input i (r, out) = (r1, out1)"
    by (cases "comb_step input i (r, out)")
  have i: "i < NUM_DELAYS" using Cons.prems(2) by simp
  note st = comb_step_bounded [OF Cons.prems(1) i Cons.prems(3,4,5,6,7) s1]
  have "reverb_bounded B r' \<and> \<bar>out'\<bar> \<le> \<bar>out1\<bar> + real (length is) * (B / 8)"
  proof (rule Cons.IH)
    show "fold (comb_step input) is (r1, out1) = (r', out')"
      using Cons.prems(8) s1 by simp
  qed (use st Cons.prems in simp_all)
  moreover have "\<bar>out1\<bar> \<le> \<bar>out\<bar> + B / 8"
    using st by simp
  moreover have "real (length (i # is)) * (B / 8) = B / 8 + real (length is) * (B / 8)"
    by (simp add: algebra_simps)
  ultimately show ?case by linarith
qed

lemma SimpleReverb_process_bounded:
  assumes "reverb_bounded B r" and "\<bar>input\<bar> \<le> M"
    and "0 \<le> feedback r" "feedback r \<le> f" and "M + f * B \<le> B" "0 \<le> B"
    and "SimpleReverb_process input r = (r', out)"
  shows "reverb_bounded B r' \<and> \<bar>out\<bar> \<le> B"
proof -
  have "reverb_bounded B r' \<and> \<bar>out\<bar> \<le> \<bar>0\<bar> + real (length [0..<NUM_DELAYS]) * (B / 8)"
    using assms by (intro fold_comb_step_bounded [where M = M and f = f and r = r])
      (simp_all add: SimpleReverb_process_def)
  then show ?thesis by (simp add: NUM_DELAYS_def)
qed

lemma unat_to_size_t:
  assumes "0 \<le> x" "x < 2 ^ 62"
  shows "unat (to_size_t x) = nat \<lfloor>x\<rfloor>"
proof -
  have f: "0 \<le> \<lfloor>x\<rfloor>" "\<lfloor>x\<rfloor> < 2 ^ 62"
    using assms by (simp_all add: floor_less_iff)
  then have "\<lfloor>x\<rfloor> mod 2 ^ 64 = \<lfloor>x\<rfloor>"
    by (intro mod_pos_pos_trivial) simp_all
  then have "uint (word_of_int \<lfloor>x\<rfloor> :: size_t) = \<lfloor>x\<rfloor>"
    by (simp add: uint_word_of_int)
  then show ?thesis
    using assms by (simp add: to_size_t_def trunc_int_def unat_eq_nat_uint)
qed

lemma new_line_bounded:
  assumes b: "1 \<le> b" "b \<le> 2 ^ 32" and c: "1 \<le> c" "c \<le> 4"
  shows "DelayLine_wf (DelayLine_new (to_size_t (real_of_int b * c * 2)))"
    and "set (buffer (DelayLine_new (to_size_t (real_of_int b * c * 2)))) \<subseteq> {0}"
proof -
  define t where "t = real_of_int b * c * 2"
  have "1 * 1 \<le> real_of_int b * c"
    using b c by (intro mult_mono) simp_all
  then have lo: "2 \<le> t" by (simp add: t_def mult.commute)
  have "real_of_int b * c \<le> 2 ^ 32 * 4"
    using b c by (intro mult_mono) simp_all
  then have "t \<le> 34359738368" by (simp add: t_def mult.commute)
  then have hi: "t < 2 ^ 62" by simp
  have u: "unat (to_size_t t) = nat \<lfloor>t\<rfloor>"
    using lo hi by (intro unat_to_size_t) simp_all
  have "2 \<le> \<lfloor>t\<rfloor>" "\<lfloor>t\<rfloor> < 4611686018427387904"
    using lo hi by (simp_all add: le_floor_iff floor_less_iff)
  then have "2 \<le> nat \<lfloor>t\<rfloor>" "nat \<lfloor>t\<rfloor> < 4611686018427387904"
    by linarith+
  then have n: "2 \<le> nat \<lfloor>t\<rfloor>" "nat \<lfloor>t\<rfloor> < 2 ^ 62"
    by simp_all
  show "DelayLine_wf (DelayLine_new (to_size_t (real_of_int b * c * 2)))"
    using n u lo unfolding t_def [symmetric]
    by (simp add: DelayLine_wf_def DelayLine_new_def word_less_nat_alt)
  show "set (buffer (DelayLine_new (to_size_t (real_of_int b * c * 2)))) \<subseteq> {0}"
    by (auto simp: DelayLine_new_def)
qed

lemma SimpleReverb_new_bounded:
  assumes sr: "1 \<le> sampleRate * 0.03" "sampleRate \<le> 2 ^ 32" and B: "0 \<le> B"
  shows "reverb_bounded B (SimpleReverb_new sampleRate)"
proof -
  define b where "b = trunc_int (sampleRate * 0.03)"
  have b: "1 \<le> b" "b \<le> 2 ^ 32"
  proof -
    show "1 \<le> b" using sr by (simp add: b_def trunc_int_def le_floor_iff)
    have "sampleRate * 0.03 \<le> 2 ^ 32" using sr by simp
    then have "\<lfloor>sampleRate * 0.03\<rfloor> \<le> \<lfloor>2 ^ 32 :: real\<rfloor>" by (rule floor_mono)
    then show "b \<le> 2 ^ 32" using sr by (simp add: b_def trunc_int_def)
  qed
  have one: "DelayLine_wf (DelayLine_new (to_size_t (real_of_int b * c * 2))) \<and>
             (\<forall>v \<in> set (buffer (DelayLine_new (to_size_t (real_of_int b * c * 2)))). \<bar>v\<bar> \<le> B)"
    if "1 \<le> c" "c \<le> 4" for c
    using new_line_bounded [OF b that] B by auto
  define cs :: "real list" where "cs = [1.0, 1.3, 1.7, 2.1, 2.3, 2.7, 3.1, 3.7]"
  have cs: "\<forall>c \<in> set cs. 1 \<le> c \<and> c \<le> 4"
    by (simp add: cs_def)
  have del: "delays (SimpleReverb_new sampleRate) =
             map (\<lambda>c. DelayLine_new (to_size_t (real_of_int b * c * 2))) cs"
    by (simp add: SimpleReverb_new_def Let_def b_def cs_def)
  have "\<forall>d \<in> set (delays (SimpleReverb_new sampleRate)).
          DelayLine_wf d \<and> (\<forall>v \<in> set (buffer d). \<bar>v\<bar> \<le> B)"
    unfolding del using cs one by auto
  moreover have "length (delays (SimpleReverb_new sampleRate)) = NUM_DELAYS"
    by (simp add: del cs_def NUM_DELAYS_def)
  ultimately show ?thesis
    by (simp add: reverb_bounded_def)
qed

lemma reverb_tick_bounded:
  assumes rb: "reverb_bounded (10 * M / 3) r" and d: "0 \<le> damping" "damping \<le> 1"
    and inp: "\<bar>input\<bar> \<le> M" and res: "reverb_tick (damping, input) r = (r', out)"
  shows "reverb_bounded (10 * M / 3) r' \<and> \<bar>out\<bar> \<le> 10 * M / 3"
proof -
  have M: "0 \<le> M" using inp by linarith
  have rb': "reverb_bounded (10 * M / 3) (setFeedback (damping * 0.7) r)"
    using rb by (simp add: reverb_bounded_def setFeedback_def)
  have fb: "0 \<le> feedback (setFeedback (damping * 0.7) r)"
    "feedback (setFeedback (damping * 0.7) r) \<le> 0.7"
    using d by (simp_all add: setFeedback_def)
  show ?thesis
  proof (rule SimpleReverb_process_bounded [OF rb' inp fb])
    show "M + 0.7 * (10 * M / 3) \<le> 10 * M / 3" by simp
    show "0 \<le> 10 * M / 3" using M by simp
    show "SimpleReverb_process input (setFeedback (damping * 0.7) r) = (r', out)"
      using res by (simp add: reverb_tick_def)
  qed
qed

lemma reverb_run_bounded:
  assumes "reverb_bounded (10 * M / 3) r"
    and "\<forall>(damping, input) \<in> set steps. 0 \<le> damping \<and> damping \<le> 1 \<and> \<bar>input\<bar> \<le> M"
  shows "\<forall>out \<in> set (reverb_run r steps). \<bar>out\<bar> \<le> 10 * M / 3"
  using assms
proof (induction steps arbitrary: r)
  case Nil
  then show ?case by simp
next
  case (Cons x steps)
  obtain damping input where x: "x = (damping, input)" by (cases x)
  obtain r' out where t: "reverb_tick (damping, input) r = (r', out)"
    by (cases "reverb_tick (damping, input) r")
  have ok: "0 \<le> damping" "damping \<le> 1" "\<bar>input\<bar> \<le> M"
    using Cons.prems(2) x by simp_all
  note st = reverb_tick_bounded [OF Cons.prems(1) ok t]
  have "\<forall>out \<in> set (reverb_run r' steps). \<bar>out\<bar> \<le> 10 * M / 3"
    using st Cons.prems(2) by (intro Cons.IH) simp_all
  then show ?case using st x t by simp
qed

subsection \<open>An eight-sample run at 100 Hz\<close>

lemma SimpleReverb_new_100:
  "SimpleReverb_new 100 =
     \<lparr>delays = [DelayLine_new 6, DelayLine_new 7, DelayLine_new 10, DelayLine_new 12,
                DelayLine_new 13, DelayLine_new 16, DelayLine_new 18, DelayLine_new 22],
      delayTimes = [3, 39 / 10, 51 / 10, 63 / 10, 69 / 10, 81 / 10, 93 / 10, 111 / 10],
      feedback = 1 / 2\<rparr>"
  by (simp add: SimpleReverb_new_def Let_def trunc_int_def to_size_t_def)

lemma silent_cells:
  "replicate 6 (0::real) = [0, 0, 0, 0, 0, 0]"
  "replicate 7 (0::real) = [0, 0, 0, 0, 0, 0, 0]"
  "replicate 10 (0::real) = [0, 0, 0, 0, 0, 0, 0, 0, 0, 0]"
  "replicate 12 (0::real) = [0, 0, 0, 0, 0, 0, 0, 0, 0, 0, 0, 0]"
  "replicate 13 (0::real) = [0, 0, 0, 0, 0, 0, 0, 0, 0, 0, 0, 0, 0]"
  "replicate 16 (0::real) = [0, 0, 0, 0, 0, 0, 0, 0, 0, 0, 0, 0, 0, 0, 0, 0]"
  "replicate 18 (0::real) = [0, 0, 0, 0, 0, 0, 0, 0, 0, 0, 0, 0, 0, 0, 0, 0, 0, 0]"
  "replicate 22 (0::real) = [0, 0, 0, 0, 0, 0, 0, 0, 0, 0, 0, 0, 0, 0, 0, 0, 0, 0, 0, 0, 0, 0]"
  by (simp_all add: eval_nat_numeral)

lemma DelayLine_new_cells:
  "DelayLine_new 6 = \<lparr>buffer = replicate 6 0, size_dl = 6, writePos = 0\<rparr>"
  "DelayLine_new 7 = \<lparr>buffer = replicate 7 0, size_dl = 7, writePos = 0\<rparr>"
  "DelayLine_new 10 = \<lparr>buffer = replicate 10 0, size_dl = 10, writePos = 0\<rparr>"
  "DelayLine_new 12 = \<lparr>buffer = replicate 12 0, size_dl = 12, writePos = 0\<rparr>"
  "DelayLine_new 13 = \<lparr>buffer = replicate 13 0, size_dl = 13, writePos = 0\<rparr>"
  "DelayLine_new 16 = \<lparr>buffer = replicate 16 0, size_dl = 16, writePos = 0\<rparr>"
  "DelayLine_new 18 = \<lparr>buffer = replicate 18 0, size_dl = 18, writePos = 0\<rparr>"
  "DelayLine_new 22 = \<lparr>buffer = replicate 22 0, size_dl = 22, writePos = 0\<rparr>"
  by (simp_all add: DelayLine_new_def)

lemma SimpleReverb_new_feedback: "feedback (SimpleReverb_new sampleRate) = 1 / 2"
  by (simp add: SimpleReverb_new_def Let_def)

lemma upt_8: "[0..<8] = [0, 1, 2, 3, 4, 5, 6, 7::nat]"
  by (simp add: upt_rec)

lemma comb_step_eq:
  "comb_step input i (r, out) =
     (r\<lparr>delays := (delays r)
          [i := push (input + read (to_size_t (delayTimes r ! i)) (delays r ! i) * feedback r)
                  (delays r ! i)]\<rparr>,
      out + read (to_size_t (delayTimes r ! i)) (delays r ! i) / 8)"
  by (simp add: comb_step_def Let_def NUM_DELAYS_def)

lemma read_eq:
  "read delay d =
     buffer d ! unat ((writePos d - (if delay \<ge> size_dl d then size_dl d - 1 else delay) +
                      size_dl d) mod size_dl d)"
  by (simp add: read_def Let_def)

lemma reverb_tick_eq:
  "reverb_tick (damping, input) r =
     fold (comb_step input) [0, 1, 2, 3, 4, 5, 6, 7] (r\<lparr>feedback := damping * 0.7\<rparr>, 0)"
  by (simp add: reverb_tick_def setFeedback_def SimpleReverb_process_def NUM_DELAYS_def upt_8)

lemma reverb_run_Cons:
  "reverb_run r ((damping, input) # xs) =
     snd (reverb_tick (damping, input) r) # reverb_run (fst (reverb_tick (damping, input) r)) xs"
  by (simp add: split_def Let_def)

lemma reverb_run_100:
  "reverb_run (SimpleReverb_new 100)
     [(1, 1), (1, 1), (1, 1), (1, 1), (1, 1), (1, 1), (1, 1), (1, 1)] =
     [0, 0, 0, 1 / 4, 1 / 4, 3 / 8, 4 / 5, 4 / 5]"
  by (simp add: SimpleReverb_new_100 DelayLine_new_cells silent_cells reverb_run_Cons
      reverb_tick_eq comb_step_eq read_eq push_def to_size_t_def trunc_int_def
      del: reverb_run.simps(2))

text \<open>
  C3, as stated: \<^verbatim>\<open>setFeedback\<close> would reject or clamp a coefficient of \<open>1\<close> or more. It
  does neither: after \<^verbatim>\<open>setFeedback(2)\<close> the coefficient \<^verbatim>\<open>process\<close> uses is \<open>2\<close>.
\<close>

theorem reverb_feedback_unclamped: "\<not> feedback (setFeedback 2 (SimpleReverb_new 44100)) < 1"
  by (simp add: setFeedback_def)

text \<open>
  C3, amended. \<^verbatim>\<open>setFeedback\<close> stores any value unchanged. The module keeps the
  coefficient below \<open>1\<close> at the call site: it passes \<open>damping * 0.7\<close>, and the damping
  parameter is configured to range over \<open>[0, 1]\<close>. With that, for a reverb constructed at
  a sample rate of at least \<open>34\<close> Hz and inputs of magnitude at most \<open>M\<close>, every output
  of an arbitrarily long run has magnitude at most \<open>10 M / 3\<close>.
\<close>

theorem reverb_stable_in_module:
  assumes "1 \<le> sampleRate * 0.03" "sampleRate \<le> 2 ^ 32"
    and "\<forall>(damping, input) \<in> set steps. 0 \<le> damping \<and> damping \<le> 1 \<and> \<bar>input\<bar> \<le> M"
  shows "feedback (setFeedback fb r) = fb \<and>
         (\<forall>(damping, input) \<in> set steps. feedback (setFeedback (damping * 0.7) r) < 1) \<and>
         (\<forall>out \<in> set (reverb_run (SimpleReverb_new sampleRate) steps). \<bar>out\<bar> \<le> 10 * M / 3)"
proof (cases steps)
  case Nil
  then show ?thesis by (simp add: setFeedback_def)
next
  case (Cons x xs)
  obtain damping input where x: "x = (damping, input)" by (cases x)
  have "\<bar>input\<bar> \<le> M" using assms(3) Cons x by simp
  then have "0 \<le> 10 * M / 3" by simp
  then have "reverb_bounded (10 * M / 3) (SimpleReverb_new sampleRate)"
    using assms(1,2) by (intro SimpleReverb_new_bounded)
  then have "\<forall>out \<in> set (reverb_run (SimpleReverb_new sampleRate) steps). \<bar>out\<bar> \<le> 10 * M / 3"
    using assms(3) by (rule reverb_run_bounded)
  moreover have "\<forall>(damping, input) \<in> set steps. feedback (setFeedback (damping * 0.7) r) < 1"
    using assms(3) by (auto simp: setFeedback_def)
  ultimately show ?thesis by (simp add: setFeedback_def)
qed

text \<open>
  A run of the theorem: a reverb constructed at \<open>100\<close> Hz (delays of \<open>3, 3, 5, 6, 6, 8, 9,
  11\<close> samples) and eight samples of input \<open>1\<close> with the damping at \<open>1\<close>, so that the
  coefficient in use is \<open>0.7\<close>, not the constructor's \<open>0.5\<close>. The first echoes arrive at
  the fourth sample; from the seventh on the output contains fed-back signal, \<open>1 + 0.7\<close> on
  the two shortest lines.
\<close>

theorem reverb_stable_in_module_witness:
  "(1::real) \<le> 100 * 0.03 \<and> (100::real) \<le> 2 ^ 32 \<and>
   feedback (SimpleReverb_new 100) = 1 / 2 \<and>
   feedback (setFeedback (7 / 10) (SimpleReverb_new 100)) = 7 / 10 \<and>
   reverb_run (SimpleReverb_new 100)
     [(1, 1), (1, 1), (1, 1), (1, 1), (1, 1), (1, 1), (1, 1), (1, 1)] =
     [0, 0, 0, 1 / 4, 1 / 4, 3 / 8, 4 / 5, 4 / 5] \<and>
   \<bar>reverb_run (SimpleReverb_new 100)
     [(1, 1), (1, 1), (1, 1), (1, 1), (1, 1), (1, 1), (1, 1), (1, 1)] ! 6\<bar> \<le> 10 * 1 / 3"
  using reverb_stable_in_module [of 100
      "[(1, 1), (1, 1), (1, 1), (1, 1), (1, 1), (1, 1), (1, 1), (1, 1)]" 1 "7 / 10"
      "SimpleReverb_new 100"]
  unfolding reverb_run_100 by (simp add: SimpleReverb_new_feedback setFeedback_def)

section \<open>Output stage of the wavetable oscillator (WT_SURGE_X.cpp)\<close>

text \<open>
  \<^verbatim>\<open>WT_SURGE_X::process\<close> mixes up to four unison voices into \<^verbatim>\<open>outL\<close> and \<^verbatim>\<open>outR\<close>
  and writes \<^verbatim>\<open>softClip(out * level * 5.f)\<close> to each output; while the wavetable is
  being replaced (\<^verbatim>\<open>tableReady\<close> false) it writes \<open>0\<close> to both. The sample \<open>base v\<close> of
  voice \<open>v\<close> is what the wavetable read and the two warp stages deliver for that voice
  (lines 411 to 425); the output stage below is kept for every value it may take.
\<close>

definition softClip :: "real \<Rightarrow> real" where
  "softClip x = x / (1 + \<bar>x\<bar>)"

definition voice_mix :: "nat \<Rightarrow> real \<Rightarrow> (nat \<Rightarrow> real) \<Rightarrow> nat \<Rightarrow> real \<times> real \<Rightarrow> real \<times> real" where
  "voice_mix voices spread base v =
     (\<lambda>(outL, outR).
        let invVoices = 1 / real voices;
            pan = (if voices > 1 then (real v / real (voices - 1) - 0.5) * 2 * spread else 0);
            gL = (1 - pan) * invVoices;
            gR = (1 + pan) * invVoices
        in (outL + base v * gL, outR + base v * gR))"

definition WT_process_output :: "bool \<Rightarrow> nat \<Rightarrow> real \<Rightarrow> real \<Rightarrow> (nat \<Rightarrow> real) \<Rightarrow> real \<times> real" where
  "WT_process_output tableReady voices spread level base =
     (if \<not> tableReady then (0, 0)
      else let (outL, outR) = fold (voice_mix voices spread base) [0..<voices] (0, 0)
           in (softClip (outL * level * 5), softClip (outR * level * 5)))"

lemma softClip_bounds: "- 1 < softClip x \<and> softClip x < 1"
proof -
  have "\<bar>x\<bar> < 1 + \<bar>x\<bar>" by simp
  then have "\<bar>x\<bar> / (1 + \<bar>x\<bar>) < 1" by simp
  moreover have "\<bar>softClip x\<bar> = \<bar>x\<bar> / (1 + \<bar>x\<bar>)"
    by (simp add: softClip_def)
  ultimately have "\<bar>softClip x\<bar> < 1" by simp
  then show ?thesis by (simp add: abs_less_iff)
qed

text \<open>
  C9. Whatever the table state, the number of voices, the spread, the level and the voice
  samples, both output voltages lie strictly between \<open>-1\<close> and \<open>1\<close>: the soft clipper is
  the last operation before the voltage is written.
\<close>

theorem WT_output_within_unit:
  "- 1 < fst (WT_process_output tableReady voices spread level base) \<and>
   fst (WT_process_output tableReady voices spread level base) < 1 \<and>
   - 1 < snd (WT_process_output tableReady voices spread level base) \<and>
   snd (WT_process_output tableReady voices spread level base) < 1"
proof (cases tableReady)
  case False
  then show ?thesis by (simp add: WT_process_output_def)
next
  case True
  obtain outL outR where m: "fold (voice_mix voices spread base) [0..<voices] (0, 0) = (outL, outR)"
    by (cases "fold (voice_mix voices spread base) [0..<voices] (0, 0)")
  show ?thesis
    using True m softClip_bounds [of "outL * level * 5"] softClip_bounds [of "outR * level * 5"]
    by (simp add: WT_process_output_def)
qed

theorem WT_output_within_unit_witness:
  "fst (WT_process_output True 2 1 1 (\<lambda>v. 1)) = 5 / 6 \<and>
   snd (WT_process_output True 2 1 1 (\<lambda>v. 1)) = 5 / 6 \<and>
   - 1 < fst (WT_process_output True 2 1 1 (\<lambda>v. 1)) \<and>
   snd (WT_process_output True 2 1 1 (\<lambda>v. 1)) < 1"
  using WT_output_within_unit [of True 2 1 1 "\<lambda>v. 1"]
  by (simp add: WT_process_output_def voice_mix_def softClip_def upt_rec)

section \<open>Voice allocation of the ambient synth (AmbientRandomSynth.cpp)\<close>

text \<open>
  \<^verbatim>\<open>struct Voice\<close> and the part of the module state that \<^verbatim>\<open>playNote\<close> touches. The
  fields \<^verbatim>\<open>attack\<close> and \<^verbatim>\<open>release\<close> of the voice are called \<open>voiceAttack\<close> and
  \<open>voiceRelease\<close> here. \<^verbatim>\<open>playNote\<close> reads the parameters ROOT, SCALE and MOTION and
  draws two numbers from \<^verbatim>\<open>random::uniform()\<close>; they are the arguments \<open>rootParam\<close>,
  \<open>scaleParam\<close>, \<open>motion\<close>, \<open>u1\<close> and \<open>u2\<close>.
\<close>

record Voice =
  active :: bool
  freq :: real
  phase :: "real list"
  env :: real
  envPhase :: real
  voiceAttack :: real
  voiceRelease :: real
  midiNote :: real

definition trigger :: "real \<Rightarrow> real \<Rightarrow> real \<Rightarrow> real \<Rightarrow> Voice \<Rightarrow> Voice" where
  "trigger f att rel note v =
     v\<lparr>active := True, freq := f, voiceAttack := att, voiceRelease := rel, midiNote := note,
       envPhase := 0\<rparr>"

record AmbientRandomSynth =
  voices :: "Voice list"
  lastVoct :: real
  gateTimer :: real

definition SCALES :: "int list list" where
  "SCALES =
     [[0, 2, 4, 5, 7, 9, 11],
      [0, 2, 3, 5, 7, 8, 10],
      [0, 2, 4, 7, 9],
      [0, 2, 4, 6, 7, 9, 11],
      [0, 1, 3, 5, 7, 8, 10],
      [0, 2, 3, 5, 7, 9, 10]]"

definition note_midi :: "real \<Rightarrow> real \<Rightarrow> real \<Rightarrow> real \<Rightarrow> int" where
  "note_midi rootParam scaleParam u1 u2 =
     (let root = trunc_int rootParam;
          scaleIdx = trunc_int scaleParam;
          scaleArr = SCALES ! nat scaleIdx;
          octave = trunc_int (u1 * 3) + 2;
          scaleNote = scaleArr ! nat (trunc_int (u2 * real (length scaleArr)))
      in root + scaleNote + octave * 12)"

definition note_freq :: "int \<Rightarrow> real" where
  "note_freq n = 440 * 2 powr (real_of_int (n - 69) / 12)"

text \<open>
  The scan for a free voice: the first inactive slot is triggered and the loop is left
  (\<^verbatim>\<open>break\<close>); when no slot is inactive the loop ends without any assignment.
\<close>

fun scan_voices :: "real \<Rightarrow> real \<Rightarrow> real \<Rightarrow> int \<Rightarrow> nat list \<Rightarrow> AmbientRandomSynth \<Rightarrow> AmbientRandomSynth" where
  "scan_voices f att rel n [] m = m"
| "scan_voices f att rel n (i # is) m =
     (if \<not> active (voices m ! i)
      then m\<lparr>voices := (voices m)[i := trigger f att rel (real_of_int n) (voices m ! i)],
             lastVoct := real_of_int (n - 60) / 12,
             gateTimer := 0.15\<rparr>
      else scan_voices f att rel n is m)"

definition playNote :: "real \<Rightarrow> real \<Rightarrow> real \<Rightarrow> real \<Rightarrow> real \<Rightarrow> AmbientRandomSynth \<Rightarrow> AmbientRandomSynth" where
  "playNote rootParam scaleParam motion u1 u2 m =
     (let n = note_midi rootParam scaleParam u1 u2;
          f = note_freq n;
          att = 0.5 + motion * 2;
          rel = 3 + motion * 4
      in scan_voices f att rel n [0..<16] m)"

lemma scan_voices_all_active:
  "\<forall>i \<in> set is. active (voices m ! i) \<Longrightarrow> scan_voices f att rel n is m = m"
  by (induction "is") simp_all

lemma scan_voices_first_free:
  assumes "\<forall>j \<in> set js. active (voices m ! j)" and "\<not> active (voices m ! i)"
  shows "scan_voices f att rel n (js @ i # is) m =
         m\<lparr>voices := (voices m)[i := trigger f att rel (real_of_int n) (voices m ! i)],
           lastVoct := real_of_int (n - 60) / 12, gateTimer := 0.15\<rparr>"
  using assms by (induction js) simp_all

text \<open>
  The SCALE parameter is configured to range over \<open>[0, 5]\<close> and \<^verbatim>\<open>random::uniform()\<close>
  returns a number in \<open>[0, 1)\<close>; then both subscripts in \<^verbatim>\<open>playNote\<close> are inside their
  arrays.
\<close>

lemma SCALES_lengths:
  assumes "i < 6"
  shows "0 < length (SCALES ! i)"
proof -
  have "i \<in> {0, 1, 2, 3, 4, 5}" using assms by auto
  then show ?thesis by (auto simp: SCALES_def)
qed

lemma scale_subscripts:
  assumes "0 \<le> scaleParam" "scaleParam \<le> 5" "0 \<le> u2" "u2 < 1"
  shows "nat (trunc_int scaleParam) < length SCALES"
    and "nat (trunc_int (u2 * real (length (SCALES ! nat (trunc_int scaleParam))))) <
         length (SCALES ! nat (trunc_int scaleParam))"
proof -
  have "\<lfloor>scaleParam\<rfloor> < 6" using assms(2) by (simp add: floor_less_iff)
  moreover have "0 \<le> \<lfloor>scaleParam\<rfloor>" using assms(1) by simp
  ultimately have "nat \<lfloor>scaleParam\<rfloor> < 6" by linarith
  then have i: "nat (trunc_int scaleParam) < 6"
    using assms(1) by (simp add: trunc_int_def)
  then show "nat (trunc_int scaleParam) < length SCALES"
    by (simp add: SCALES_def)
  define n where "n = length (SCALES ! nat (trunc_int scaleParam))"
  have n: "0 < n" unfolding n_def using i by (rule SCALES_lengths)
  have "u2 * real n < 1 * real n"
    using assms(4) n by (intro mult_strict_right_mono) simp_all
  then have "\<lfloor>u2 * real n\<rfloor> < int n"
    by (simp add: floor_less_iff)
  moreover have "0 \<le> u2 * real n" using assms(3) by simp
  ultimately show "nat (trunc_int (u2 * real n)) < n"
    by (simp add: trunc_int_def nat_less_iff)
qed

text \<open>
  C7. If all 16 slots are active, \<^verbatim>\<open>playNote\<close> returns the module state unchanged (no
  voice is touched, \<^verbatim>\<open>lastVoct\<close> and \<^verbatim>\<open>gateTimer\<close> keep their values; the model has no
  failure branch, as the source has none). Otherwise the first inactive slot \<open>i\<close> in scan
  order, and no other, is changed: it becomes active, its frequency is
  \<open>440 * 2 ^ ((n - 69) / 12)\<close> for the drawn note \<open>n\<close>, its attack is \<open>0.5 + 2 * motion\<close>,
  its release \<open>3 + 4 * motion\<close>, its note \<open>n\<close> and its envelope phase \<open>0\<close>; its oscillator
  phases and envelope level stay. \<^verbatim>\<open>lastVoct\<close> becomes \<open>(n - 60) / 12\<close> and \<^verbatim>\<open>gateTimer\<close>
  \<open>0.15\<close>. The note \<open>n\<close> is the root plus a degree of the chosen scale plus \<open>12\<close> times an
  octave number, with both subscripts inside their arrays.
\<close>

theorem playNote_allocation:
  assumes "0 \<le> scaleParam" "scaleParam \<le> 5" "0 \<le> u2" "u2 < 1"
  shows
    "let scaleArr = SCALES ! nat (trunc_int scaleParam);
         k = nat (trunc_int (u2 * real (length scaleArr)));
         n = trunc_int rootParam + scaleArr ! k + (trunc_int (u1 * 3) + 2) * 12
     in nat (trunc_int scaleParam) < length SCALES \<and> k < length scaleArr \<and>
        ((\<forall>i < 16. active (voices m ! i)) \<longrightarrow>
           playNote rootParam scaleParam motion u1 u2 m = m) \<and>
        (\<forall>i < 16. \<not> active (voices m ! i) \<and> (\<forall>j < i. active (voices m ! j)) \<longrightarrow>
           playNote rootParam scaleParam motion u1 u2 m =
             m\<lparr>voices := (voices m)
                   [i := (voices m ! i)
                      \<lparr>active := True,
                       freq := 440 * 2 powr (real_of_int (n - 69) / 12),
                       voiceAttack := 0.5 + motion * 2,
                       voiceRelease := 3 + motion * 4,
                       midiNote := real_of_int n,
                       envPhase := 0\<rparr>],
               lastVoct := real_of_int (n - 60) / 12,
               gateTimer := 0.15\<rparr>)"
proof -
  define n where "n = note_midi rootParam scaleParam u1 u2"
  have free: "playNote rootParam scaleParam motion u1 u2 m =
        m\<lparr>voices := (voices m)
              [i := trigger (note_freq n) (0.5 + motion * 2) (3 + motion * 4) (real_of_int n)
                      (voices m ! i)],
          lastVoct := real_of_int (n - 60) / 12, gateTimer := 0.15\<rparr>"
    if i: "i < 16" and h: "\<not> active (voices m ! i)" "\<forall>j < i. active (voices m ! j)" for i
  proof -
    have split: "[0..<16] = [0..<i] @ i # [Suc i..<16]"
      using i by (metis less_imp_le_nat upt_add_eq_append upt_conv_Cons zero_le
          le_add_diff_inverse)
    have "\<forall>j \<in> set [0..<i]. active (voices m ! j)" using h by simp
    then show ?thesis
      using h unfolding playNote_def Let_def split n_def
      by (intro scan_voices_first_free) simp_all
  qed
  have busy: "playNote rootParam scaleParam motion u1 u2 m = m"
    if "\<forall>i < 16. active (voices m ! i)"
  proof -
    have "\<forall>i \<in> set [0..<16]. active (voices m ! i)" using that by simp
    then show ?thesis
      by (simp only: playNote_def Let_def scan_voices_all_active)
  qed
  have n: "n = trunc_int rootParam +
      SCALES ! nat (trunc_int scaleParam) !
        nat (trunc_int (u2 * real (length (SCALES ! nat (trunc_int scaleParam))))) +
      (trunc_int (u1 * 3) + 2) * 12"
    by (simp add: n_def note_midi_def Let_def)
  show ?thesis
    unfolding Let_def n [symmetric]
    using scale_subscripts [OF assms] busy free
    by (simp add: trigger_def note_freq_def)
qed

text \<open>
  Two pools for a run of the theorem, with the pentatonic scale, \<open>u1 = 0.3\<close> and
  \<open>u2 = 0.4\<close>, which draw the note \<open>28\<close>: all slots busy, and slot 1 the first free one.
\<close>

definition example_voice :: "bool \<Rightarrow> Voice" where
  "example_voice a =
     \<lparr>active = a, freq = 220, phase = [0, 0, 0], env = 0, envPhase = 1,
      voiceAttack = 1 / 2, voiceRelease = 3, midiNote = 57\<rparr>"

definition example_pool :: "Voice list \<Rightarrow> AmbientRandomSynth" where
  "example_pool vs = \<lparr>voices = vs, lastVoct = 0, gateTimer = 0\<rparr>"

theorem playNote_allocation_witness:
  "(0::real) \<le> 2 \<and> (2::real) \<le> 5 \<and> (0::real) \<le> 2 / 5 \<and> (2 / 5::real) < 1 \<and>
   playNote 0 2 (1 / 2) (3 / 10) (2 / 5) (example_pool (replicate 16 (example_voice True))) =
     example_pool (replicate 16 (example_voice True)) \<and>
   playNote 0 2 (1 / 2) (3 / 10) (2 / 5)
     (example_pool (example_voice True # example_voice False # replicate 14 (example_voice True))) =
     \<lparr>voices = example_voice True #
        \<lparr>active = True, freq = 440 * 2 powr (- 41 / 12), phase = [0, 0, 0], env = 0,
         envPhase = 0, voiceAttack = 3 / 2, voiceRelease = 5, midiNote = 28\<rparr> #
        replicate 14 (example_voice True),
      lastVoct = - 8 / 3, gateTimer = 15 / 100\<rparr>"
proof -
  have k: "SCALES ! nat (trunc_int 2) = [0, 2, 4, 7, 9]"
    by (simp add: SCALES_def trunc_int_def)
  have n: "trunc_int 0 + [0, 2, 4, 7, 9] ! nat (trunc_int (2 / 5 * real (length [0, 2, 4, 7, 9::int]))) +
           (trunc_int (3 / 10 * 3) + 2) * 12 = 28"
    by (simp add: trunc_int_def)
  have busy: "\<forall>i < 16. active (voices (example_pool (replicate 16 (example_voice True))) ! i)"
    by (simp add: example_pool_def example_voice_def)
  have free: "\<not> active (voices (example_pool (example_voice True # example_voice False #
                 replicate 14 (example_voice True))) ! 1) \<and>
              (\<forall>j < 1. active (voices (example_pool (example_voice True # example_voice False #
                 replicate 14 (example_voice True))) ! j))"
    by (simp add: example_pool_def example_voice_def)
  show ?thesis
    using playNote_allocation [of 2 "2 / 5" 0 "3 / 10"
        "example_pool (replicate 16 (example_voice True))" "1 / 2"] busy
      playNote_allocation [of 2 "2 / 5" 0 "3 / 10"
        "example_pool (example_voice True # example_voice False #
           replicate 14 (example_voice True))" "1 / 2", unfolded Let_def,
        THEN conjunct2, THEN conjunct2, THEN conjunct2, rule_format, of 1] free
    unfolding Let_def k n
    by (simp add: example_pool_def example_voice_def)
qed

section \<open>Build-up looper (BuildupLooper.cpp)\<close>

text \<open>
  An input port of the host is a voltage when a cable is connected and reads \<open>0\<close> when
  none is; a parameter is its current value.
\<close>

type_synonym port = "real option"

definition isConnected :: "port \<Rightarrow> bool" where
  "isConnected p = (p \<noteq> None)"

definition getVoltage :: "port \<Rightarrow> real" where
  "getVoltage p = (case p of None \<Rightarrow> 0 | Some v \<Rightarrow> v)"

text \<open>The constants of the namespace.\<close>

definition RING_MAX_SAMPLES :: int where
  "RING_MAX_SAMPLES = trunc_int (2.5 * 192000)"

definition LOOP_MAX_SAMPLES :: int where
  "LOOP_MAX_SAMPLES = trunc_int (2 * 192000)"

definition EXIT_FADE_MS :: real where
  "EXIT_FADE_MS = 20"

definition LOOP_FADE_MS :: real where
  "LOOP_FADE_MS = 10"

definition easeInOut :: "real \<Rightarrow> real" where
  "easeInOut x0 = (let x = clamp x0 0 1 in x * x * (3 - 2 * x))"

text \<open>
  The loops \<^verbatim>\<open>while (pos < 0.f) pos += size;\<close> and \<^verbatim>\<open>while (pos >= size) pos -= size;\<close>.
  They do not return when the length is not positive and the condition holds, so they are
  partial: \<open>None\<close> is a loop that never ends.
\<close>

partial_function (option) wrap_up :: "real \<Rightarrow> real \<Rightarrow> real option" where
  "wrap_up pos len = (if pos < 0 then wrap_up (pos + len) len else Some pos)"

partial_function (option) wrap_down :: "real \<Rightarrow> real \<Rightarrow> real option" where
  "wrap_down pos len = (if pos \<ge> len then wrap_down (pos - len) len else Some pos)"

text \<open>\<^verbatim>\<open>readLinear\<close>: linear interpolation in a circular buffer.\<close>

definition readLinear :: "real list \<Rightarrow> int \<Rightarrow> real \<Rightarrow> real option" where
  "readLinear buf sz pos0 =
     (if sz \<le> 0 then Some 0
      else do {
        pos1 \<leftarrow> wrap_up pos0 (real_of_int sz);
        pos \<leftarrow> wrap_down pos1 (real_of_int sz);
        let i0 = trunc_int pos;
            i1 = (if i0 + 1 \<ge> sz then 0 else i0 + 1);
            f = pos - real_of_int i0
        in Some (buf ! nat i0 * (1 - f) + buf ! nat i1 * f)
      })"

text \<open>
  \<^verbatim>\<open>readWithLoopCrossfade\<close>: the read at \<open>pos\<close>, blended near the end of the loop with a
  read near its start; no blend when \<^verbatim>\<open>Nfade <= 0 || len < 2 * Nfade\<close>.
\<close>

definition readWithLoopCrossfade :: "real list \<Rightarrow> int \<Rightarrow> real \<Rightarrow> int \<Rightarrow> real option" where
  "readWithLoopCrossfade buf len pos Nfade =
     (if len \<le> 0 then Some 0
      else do {
        p1 \<leftarrow> wrap_down pos (real_of_int len);
        p \<leftarrow> wrap_up p1 (real_of_int len);
        end \<leftarrow> readLinear buf len p;
        if Nfade \<le> 0 \<or> len < 2 * Nfade then Some end
        else do {
          let startPos0 = p - real_of_int (len - Nfade);
          let startPos = (if startPos0 < 0 then startPos0 + real_of_int len else startPos0);
          start \<leftarrow> readLinear buf len startPos;
          let w = (if p \<ge> real_of_int (len - Nfade)
                   then (p - real_of_int (len - Nfade)) / real_of_int Nfade else 0)
          in Some (end * (1 - w) + start * w)
        }
      })"

text \<open>
  The module state. The enum value \<^verbatim>\<open>IDLE\<close> is \<open>LOOPER_IDLE\<close> and the field
  \<^verbatim>\<open>state\<close> is \<open>looperState\<close> here; a null buffer pointer is the empty list. The
  counters are C++ \<^verbatim>\<open>int\<close>; they are modelled without a bound (at 192 kHz
  \<^verbatim>\<open>clockSampleCounter\<close> reaches the 32-bit range after about three hours).
\<close>

datatype looper_state = LOOPER_IDLE | BUILD | EXIT_FADE

record Looper =
  ringL :: "real list"
  ringR :: "real list"
  ringSize :: int
  ringWritePos :: int
  loopL :: "real list"
  loopR :: "real list"
  loopSamples :: int
  looperState :: looper_state
  playheadL :: real
  playheadR :: real
  rampSamples :: int
  exitFadeSamples :: real
  exitFadeTotal :: real
  buttonToggleState :: bool
  prevButtonPressed :: bool
  smoothedIntensity :: real
  smoothedTime :: real
  smoothedLoopSec :: real
  prevClockHigh :: bool
  clockSampleCounter :: int
  lastClockSample :: int
  beatPeriodSamples :: real

record LooperIn =
  sampleRate :: real
  BUILD_PARAM :: real
  INTENSITY_PARAM :: real
  TIME_PARAM :: real
  LOOP_PARAM :: real
  BAR_PARAM :: real
  TRIG_INPUT :: port
  CLOCK_INPUT :: port
  INTENSITY_INPUT :: port
  AUDIO_L_INPUT :: port
  AUDIO_R_INPUT :: port

record LooperOut =
  AUDIO_L_OUTPUT :: real
  AUDIO_R_OUTPUT :: real
  BUILD_LIGHT :: real

text \<open>The member initialisers.\<close>

definition Looper_init :: Looper where
  "Looper_init =
     \<lparr>ringL = [], ringR = [], ringSize = 0, ringWritePos = 0,
      loopL = [], loopR = [], loopSamples = 0, looperState = LOOPER_IDLE,
      playheadL = 0, playheadR = 0, rampSamples = 0, exitFadeSamples = 0, exitFadeTotal = 1,
      buttonToggleState = False, prevButtonPressed = False,
      smoothedIntensity = 1, smoothedTime = 8, smoothedLoopSec = 0.25,
      prevClockHigh = False, clockSampleCounter = 0, lastClockSample = 0,
      beatPeriodSamples = 0\<rparr>"

text \<open>
  \<^verbatim>\<open>process\<close>, cut at the comments of the source: buffer allocation on the first call,
  the exit-fade length, the BUILD button, the build request, parameter smoothing, the loop
  length (with the clock measurement), the crossfade length, the audio inputs, the ring
  write, and the state machine.
\<close>

definition ensureBuffers :: "Looper \<Rightarrow> Looper" where
  "ensureBuffers s =
     (if ringL s \<noteq> [] then s
      else s\<lparr>ringSize := RING_MAX_SAMPLES,
             ringL := replicate (nat RING_MAX_SAMPLES) 0,
             ringR := replicate (nat RING_MAX_SAMPLES) 0,
             loopL := replicate (nat LOOP_MAX_SAMPLES) 0,
             loopR := replicate (nat LOOP_MAX_SAMPLES) 0\<rparr>)"

definition fix_exitFadeTotal :: "real \<Rightarrow> Looper \<Rightarrow> Looper" where
  "fix_exitFadeTotal sr s =
     (if exitFadeTotal s \<le> 0 \<or> exitFadeTotal s > 96000
      then s\<lparr>exitFadeTotal := EXIT_FADE_MS * 0.001 * sr\<rparr> else s)"

definition update_button :: "LooperIn \<Rightarrow> Looper \<Rightarrow> Looper" where
  "update_button i s =
     (let buttonPressed = (BUILD_PARAM i \<ge> 0.5)
      in s\<lparr>buttonToggleState :=
               (if buttonPressed \<noteq> prevButtonPressed s then \<not> buttonToggleState s
                else buttonToggleState s),
           prevButtonPressed := buttonPressed\<rparr>)"

definition wantBuild :: "LooperIn \<Rightarrow> Looper \<Rightarrow> bool" where
  "wantBuild i s =
     (let trigConnected = isConnected (TRIG_INPUT i);
          trigV = getVoltage (TRIG_INPUT i);
          gateHigh = (trigV \<ge> 0.5)
      in gateHigh \<or> (\<not> trigConnected \<and> buttonToggleState s))"

definition update_smoothing :: "LooperIn \<Rightarrow> Looper \<Rightarrow> Looper" where
  "update_smoothing i s =
     (let smooth = 0.0005;
          targetIntensity =
            (if isConnected (INTENSITY_INPUT i)
             then clamp (1 + (getVoltage (INTENSITY_INPUT i) / 10) * 14) 1 15
             else INTENSITY_PARAM i)
      in s\<lparr>smoothedIntensity := smoothedIntensity s + (targetIntensity - smoothedIntensity s) * smooth,
           smoothedTime := smoothedTime s + (TIME_PARAM i - smoothedTime s) * smooth,
           smoothedLoopSec := smoothedLoopSec s + (LOOP_PARAM i - smoothedLoopSec s) * smooth\<rparr>)"

definition update_clock :: "LooperIn \<Rightarrow> Looper \<Rightarrow> Looper" where
  "update_clock i s =
     (let sr = sampleRate i;
          clockHigh = (getVoltage (CLOCK_INPUT i) \<ge> 0.5);
          s1 = (if clockHigh \<and> \<not> prevClockHigh s
                then (let period = clockSampleCounter s - lastClockSample s;
                          s' = (if period > 0 \<and> period < trunc_int (sr * 4)
                                then s\<lparr>beatPeriodSamples :=
                                         0.1 * beatPeriodSamples s + 0.9 * real_of_int period\<rparr>
                                else s)
                      in s'\<lparr>lastClockSample := clockSampleCounter s\<rparr>)
                else s)
      in s1\<lparr>prevClockHigh := clockHigh, clockSampleCounter := clockSampleCounter s1 + 1\<rparr>)"

definition loop_length :: "LooperIn \<Rightarrow> Looper \<Rightarrow> Looper \<times> int" where
  "loop_length i s =
     (let sr = sampleRate i
      in if isConnected (CLOCK_INPUT i)
         then (let s1 = update_clock i s;
                   barIndex = clamp (trunc_int (BAR_PARAM i + 0.5)) 0 3;
                   bars = (2 :: int) ^ nat barIndex;
                   L = (if beatPeriodSamples s1 > 0
                        then trunc_int (real_of_int (bars * 4) * beatPeriodSamples s1)
                        else trunc_int (smoothedLoopSec s1 * sr))
               in (s1, clamp L 1 (if ringSize s1 > 0 then min LOOP_MAX_SAMPLES (ringSize s1)
                                  else LOOP_MAX_SAMPLES)))
         else (s, clamp (trunc_int (smoothedLoopSec s * sr)) 1 LOOP_MAX_SAMPLES))"

definition fade_length :: "real \<Rightarrow> int \<Rightarrow> int" where
  "fade_length sr L_samples = clamp (trunc_int (LOOP_FADE_MS * 0.001 * sr)) 4 (L_samples sdiv 2)"

definition audio_in :: "LooperIn \<Rightarrow> real \<times> real" where
  "audio_in i =
     (let hasL = isConnected (AUDIO_L_INPUT i);
          hasR = isConnected (AUDIO_R_INPUT i);
          inL = (if hasL then getVoltage (AUDIO_L_INPUT i) / 10 else 0);
          inR = (if hasR then getVoltage (AUDIO_R_INPUT i) / 10 else 0);
          inR' = (if hasL \<and> \<not> hasR then inL else inR);
          inL' = (if hasR \<and> \<not> hasL then inR' else inL)
      in (inL', inR'))"

definition ring_write :: "real \<Rightarrow> real \<Rightarrow> Looper \<Rightarrow> Looper" where
  "ring_write inL inR s =
     s\<lparr>ringL := (ringL s)[nat (ringWritePos s) := inL],
       ringR := (ringR s)[nat (ringWritePos s) := inR],
       ringWritePos := (ringWritePos s + 1) smod ringSize s\<rparr>"

text \<open>The copy loop \<^verbatim>\<open>for (int i = 0; i < L_samples; i++)\<close> that locks the loop.\<close>

function copy_loop :: "int \<Rightarrow> int \<Rightarrow> int \<Rightarrow> Looper \<Rightarrow> Looper" where
  "copy_loop start L_samples i s =
     (if i < L_samples
      then (let r = (start + i) smod ringSize s
            in copy_loop start L_samples (i + 1)
                 (s\<lparr>loopL := (loopL s)[nat i := ringL s ! nat r],
                    loopR := (loopR s)[nat i := ringR s ! nat r]\<rparr>))
      else s)"
  by pat_completeness auto
termination
  by (relation "measure (\<lambda>(start, L_samples, i, s). nat (L_samples - i))") auto

definition enter_build :: "int \<Rightarrow> Looper \<Rightarrow> Looper" where
  "enter_build L_samples s =
     (let start = (ringWritePos s - L_samples + ringSize s) smod ringSize s;
          s1 = copy_loop start L_samples 0 s
      in s1\<lparr>loopSamples := L_samples, playheadL := 0, playheadR := 0, rampSamples := 0,
            looperState := BUILD\<rparr>)"

definition exit_fade_step :: "int \<Rightarrow> real \<Rightarrow> real \<Rightarrow> Looper \<Rightarrow> (Looper \<times> LooperOut) option" where
  "exit_fade_step Nfade inL inR s =
     (let mix = (if exitFadeTotal s > 0 then clamp (exitFadeSamples s / exitFadeTotal s) 0 1 else 1)
      in do {
        loopL_out \<leftarrow> readWithLoopCrossfade (loopL s) (loopSamples s) (playheadL s) Nfade;
        loopR_out \<leftarrow> readWithLoopCrossfade (loopR s) (loopSamples s) (playheadR s) Nfade;
        let outL = loopL_out * (1 - mix) + inL * mix;
            outR = loopR_out * (1 - mix) + inR * mix;
            s1 = s\<lparr>exitFadeSamples := exitFadeSamples s + 1\<rparr>;
            s2 = (if exitFadeSamples s1 \<ge> exitFadeTotal s1 then s1\<lparr>looperState := LOOPER_IDLE\<rparr>
                  else s1)
        in Some (s2, \<lparr>AUDIO_L_OUTPUT = outL * 10, AUDIO_R_OUTPUT = outR * 10,
                      BUILD_LIGHT = 0.3 * (1 - mix)\<rparr>)
      })"

definition build_step :: "real \<Rightarrow> int \<Rightarrow> Looper \<Rightarrow> (Looper \<times> LooperOut) option" where
  "build_step sr Nfade s0 =
     (let s = s0\<lparr>rampSamples := rampSamples s0 + 1\<rparr>;
          T_samples = smoothedTime s * sr;
          progress = (if T_samples > 0 then clamp (real_of_int (rampSamples s) / T_samples) 0 1
                      else 1);
          rate = 1 + (smoothedIntensity s - 1) * easeInOut progress;
          len = real_of_int (loopSamples s)
      in do {
        pL1 \<leftarrow> wrap_down (playheadL s + rate) len;
        pR1 \<leftarrow> wrap_down (playheadR s + rate) len;
        pL \<leftarrow> wrap_up pL1 len;
        pR \<leftarrow> wrap_up pR1 len;
        let s1 = s\<lparr>playheadL := pL, playheadR := pR\<rparr>;
        outL0 \<leftarrow> readWithLoopCrossfade (loopL s1) (loopSamples s1) (playheadL s1) Nfade;
        outR0 \<leftarrow> readWithLoopCrossfade (loopR s1) (loopSamples s1) (playheadR s1) Nfade;
        let peak = max \<bar>outL0\<bar> \<bar>outR0\<bar>;
            gain0 = (if peak > 0.001 \<and> peak < 0.2 then 0.25 / peak else 1);
            gain = clamp gain0 1 3;
            outL = clamp (outL0 * gain) (- 1.2) 1.2;
            outR = clamp (outR0 * gain) (- 1.2) 1.2
        in Some (s1, \<lparr>AUDIO_L_OUTPUT = outL * 10, AUDIO_R_OUTPUT = outR * 10,
                      BUILD_LIGHT = 0.3 + 0.7 * progress\<rparr>)
      })"

definition process_pre :: "LooperIn \<Rightarrow> Looper \<Rightarrow> Looper" where
  "process_pre i s0 =
     update_smoothing i (update_button i (fix_exitFadeTotal (sampleRate i) (ensureBuffers s0)))"

definition Looper_process :: "LooperIn \<Rightarrow> Looper \<Rightarrow> (Looper \<times> LooperOut) option" where
  "Looper_process i s0 =
     (let sr = sampleRate i;
          s1 = process_pre i s0;
          want = wantBuild i s1;
          (s2, L_samples) = loop_length i s1;
          Nfade = fade_length sr L_samples;
          (inL, inR) = audio_in i;
          s = ring_write inL inR s2
      in case looperState s of
           LOOPER_IDLE \<Rightarrow>
             Some (if want then enter_build L_samples s else s,
                   \<lparr>AUDIO_L_OUTPUT = inL * 10, AUDIO_R_OUTPUT = inR * 10, BUILD_LIGHT = 0\<rparr>)
         | BUILD \<Rightarrow>
             if \<not> want
             then exit_fade_step Nfade inL inR (s\<lparr>looperState := EXIT_FADE, exitFadeSamples := 0\<rparr>)
             else build_step sr Nfade s
         | EXIT_FADE \<Rightarrow> exit_fade_step Nfade inL inR s)"

text \<open>A run of the module over a list of input vectors, one per sample.\<close>

fun Looper_run :: "Looper \<Rightarrow> LooperIn list \<Rightarrow> Looper option" where
  "Looper_run s [] = Some s"
| "Looper_run s (i # is) =
     (case Looper_process i s of None \<Rightarrow> None | Some (s', out) \<Rightarrow> Looper_run s' is)"

subsection \<open>The per-sample step always returns\<close>

declare copy_loop.simps [simp del]

lemma RING_MAX_SAMPLES_eq: "RING_MAX_SAMPLES = 480000"
  by (simp add: RING_MAX_SAMPLES_def trunc_int_def)

lemma LOOP_MAX_SAMPLES_eq: "LOOP_MAX_SAMPLES = 384000"
  by (simp add: LOOP_MAX_SAMPLES_def trunc_int_def)

lemma wrap_down_total:
  assumes "0 < len"
  shows "\<exists>q. wrap_down p len = Some q"
proof -
  have "\<forall>p. nat \<lfloor>p / len\<rfloor> = n \<longrightarrow> (\<exists>q. wrap_down p len = Some q)" for n
  proof (induction n)
    case 0
    show ?case
    proof (intro allI impI)
      fix p assume "nat \<lfloor>p / len\<rfloor> = 0"
      then have "\<lfloor>p / len\<rfloor> < 1" by simp
      then have "p / len < 1" by (simp add: floor_less_iff)
      then have "p < len" using assms by (simp add: field_simps)
      then show "\<exists>q. wrap_down p len = Some q"
        by (subst wrap_down.simps) simp
    qed
  next
    case (Suc n)
    show ?case
    proof (intro allI impI)
      fix p assume n: "nat \<lfloor>p / len\<rfloor> = Suc n"
      show "\<exists>q. wrap_down p len = Some q"
      proof (cases "p \<ge> len")
        case False
        then show ?thesis by (subst wrap_down.simps) simp
      next
        case True
        have "(p - len) / len = p / len - 1"
          using assms by (simp add: field_simps)
        then have "\<lfloor>(p - len) / len\<rfloor> = \<lfloor>p / len\<rfloor> - 1" by simp
        then have "nat \<lfloor>(p - len) / len\<rfloor> = n" using n by simp
        then obtain q where "wrap_down (p - len) len = Some q"
          using Suc.IH by blast
        then show ?thesis using True by (subst wrap_down.simps) simp
      qed
    qed
  qed
  then show ?thesis by blast
qed

lemma wrap_up_total:
  assumes "0 < len"
  shows "\<exists>q. wrap_up p len = Some q"
proof -
  have "\<forall>p. nat \<lceil>- p / len\<rceil> = n \<longrightarrow> (\<exists>q. wrap_up p len = Some q)" for n
  proof (induction n)
    case 0
    show ?case
    proof (intro allI impI)
      fix p assume "nat \<lceil>- p / len\<rceil> = 0"
      then have "\<lceil>- p / len\<rceil> \<le> 0" by simp
      then have "- p / len \<le> 0" by (simp add: ceiling_le_iff)
      then have "0 \<le> p" using assms by (simp add: field_simps)
      then show "\<exists>q. wrap_up p len = Some q"
        by (subst wrap_up.simps) simp
    qed
  next
    case (Suc n)
    show ?case
    proof (intro allI impI)
      fix p assume n: "nat \<lceil>- p / len\<rceil> = Suc n"
      show "\<exists>q. wrap_up p len = Some q"
      proof (cases "p < 0")
        case False
        then show ?thesis by (subst wrap_up.simps) simp
      next
        case True
        have "- (p + len) / len = - p / len - 1"
          using assms by (simp add: field_simps)
        then have "\<lceil>- (p + len) / len\<rceil> = \<lceil>- p / len\<rceil> - 1" by simp
        then have "nat \<lceil>- (p + len) / len\<rceil> = n" using n by simp
        then obtain q where "wrap_up (p + len) len = Some q"
          using Suc.IH by blast
        then show ?thesis using True by (subst wrap_up.simps) simp
      qed
    qed
  qed
  then show ?thesis by blast
qed

lemma bind_total:
  assumes "\<exists>v. m = Some v" and "\<And>x. \<exists>v. f x = Some v"
  shows "\<exists>v. (m \<bind> f) = Some v"
  using assms by (cases m) auto

lemma readLinear_total: "\<exists>v. readLinear buf sz pos = Some v"
  unfolding readLinear_def Let_def
  by (auto intro!: bind_total wrap_down_total wrap_up_total)

lemma readWithLoopCrossfade_total: "\<exists>v. readWithLoopCrossfade buf len pos Nfade = Some v"
  unfolding readWithLoopCrossfade_def Let_def
  by (auto intro!: bind_total wrap_down_total wrap_up_total readLinear_total)

lemma exit_fade_step_total: "\<exists>r. exit_fade_step Nfade inL inR s = Some r"
  unfolding exit_fade_step_def Let_def
  by (intro bind_total readWithLoopCrossfade_total) simp

lemma build_step_total:
  assumes "1 \<le> loopSamples s"
  shows "\<exists>r. build_step sr Nfade s = Some r"
proof -
  have len: "0 < real_of_int (loopSamples s)" using assms by simp
  show ?thesis
    unfolding build_step_def Let_def
    by (intro bind_total readWithLoopCrossfade_total wrap_down_total wrap_up_total)
      (use assms in simp_all)
qed

text \<open>
  What every reachable state satisfies: once allocated, the buffers have their fixed
  sizes and the write cursor is inside the ring; in \<open>BUILD\<close> the locked loop is not empty.
  \<open>same_ring\<close> relates two states that agree on the ring, on the sizes of the loop
  buffers and on the button fields.
\<close>

definition looper_inv :: "Looper \<Rightarrow> bool" where
  "looper_inv s \<longleftrightarrow>
     (let b = ensureBuffers s
      in ringSize b = RING_MAX_SAMPLES \<and>
         length (ringL b) = nat RING_MAX_SAMPLES \<and> length (ringR b) = nat RING_MAX_SAMPLES \<and>
         length (loopL b) = nat LOOP_MAX_SAMPLES \<and> length (loopR b) = nat LOOP_MAX_SAMPLES \<and>
         0 \<le> ringWritePos b \<and> ringWritePos b < RING_MAX_SAMPLES) \<and>
     (looperState s = BUILD \<longrightarrow> 1 \<le> loopSamples s)"

definition same_ring :: "Looper \<Rightarrow> Looper \<Rightarrow> bool" where
  "same_ring s s' \<longleftrightarrow>
     ringL s' = ringL s \<and> ringR s' = ringR s \<and> ringSize s' = ringSize s \<and>
     ringWritePos s' = ringWritePos s \<and>
     length (loopL s') = length (loopL s) \<and> length (loopR s') = length (loopR s) \<and>
     buttonToggleState s' = buttonToggleState s \<and> prevButtonPressed s' = prevButtonPressed s"

lemma same_ring_refl: "same_ring s s"
  by (simp add: same_ring_def)

lemma same_ring_trans: "same_ring a b \<Longrightarrow> same_ring b c \<Longrightarrow> same_ring a c"
  by (simp add: same_ring_def)

lemma loop_length_frame:
  "same_ring s (fst (loop_length i s)) \<and>
   looperState (fst (loop_length i s)) = looperState s \<and>
   loopSamples (fst (loop_length i s)) = loopSamples s \<and>
   loopL (fst (loop_length i s)) = loopL s \<and> loopR (fst (loop_length i s)) = loopR s"
  by (simp add: loop_length_def update_clock_def same_ring_def Let_def)

lemma copy_loop_frame:
  "same_ring s (copy_loop start L i s) \<and>
   looperState (copy_loop start L i s) = looperState s"
proof (induction start L i s rule: copy_loop.induct)
  case (1 start L i s)
  show ?case
  proof (cases "i < L")
    case False
    then show ?thesis by (subst copy_loop.simps, subst (2) copy_loop.simps) (simp add: same_ring_def)
  next
    case True
    define s1 where "s1 = s\<lparr>loopL := (loopL s)[nat i := ringL s ! nat ((start + i) smod ringSize s)],
                    loopR := (loopR s)[nat i := ringR s ! nat ((start + i) smod ringSize s)]\<rparr>"
    have step: "copy_loop start L i s = copy_loop start L (i + 1) s1"
      using True by (subst copy_loop.simps) (simp add: s1_def Let_def)
    have "same_ring s1 (copy_loop start L (i + 1) s1) \<and>
          looperState (copy_loop start L (i + 1) s1) = looperState s1"
      using "1.IH" [OF True refl] by (simp add: s1_def)
    moreover have "same_ring s s1" "looperState s1 = looperState s"
      by (simp_all add: s1_def same_ring_def)
    ultimately show ?thesis
      unfolding step using same_ring_trans by auto
  qed
qed

lemma enter_build_frame:
  "same_ring s (enter_build L s) \<and> looperState (enter_build L s) = BUILD \<and>
   loopSamples (enter_build L s) = L \<and> playheadL (enter_build L s) = 0 \<and>
   playheadR (enter_build L s) = 0"
  using copy_loop_frame [of s "(ringWritePos s - L + ringSize s) smod ringSize s" L 0]
  by (simp add: enter_build_def Let_def same_ring_def)

lemma exit_fade_step_frame:
  assumes "exit_fade_step Nfade inL inR s = Some (s', out)"
  shows "same_ring s s' \<and> (looperState s \<noteq> BUILD \<longrightarrow> looperState s' \<noteq> BUILD)"
  using assms
  by (auto simp: exit_fade_step_def Let_def same_ring_def bind_eq_Some_conv split: if_splits)

lemma build_step_frame:
  assumes "build_step sr Nfade s = Some (s', out)"
  shows "same_ring s s' \<and> looperState s' = looperState s \<and> loopSamples s' = loopSamples s"
  using assms
  by (auto simp: build_step_def Let_def same_ring_def bind_eq_Some_conv)

lemma process_pre_frame:
  "ringL (process_pre i s) = ringL (ensureBuffers s) \<and>
   ringR (process_pre i s) = ringR (ensureBuffers s) \<and>
   ringSize (process_pre i s) = ringSize (ensureBuffers s) \<and>
   ringWritePos (process_pre i s) = ringWritePos s \<and>
   loopL (process_pre i s) = loopL (ensureBuffers s) \<and>
   loopR (process_pre i s) = loopR (ensureBuffers s) \<and>
   looperState (process_pre i s) = looperState s \<and>
   loopSamples (process_pre i s) = loopSamples s \<and>
   buttonToggleState (process_pre i s) =
     (if (BUILD_PARAM i \<ge> 0.5) \<noteq> prevButtonPressed s then \<not> buttonToggleState s
      else buttonToggleState s) \<and>
   prevButtonPressed (process_pre i s) = (BUILD_PARAM i \<ge> 0.5)"
  by (simp add: process_pre_def update_smoothing_def update_button_def fix_exitFadeTotal_def
      ensureBuffers_def Let_def)

lemma ensureBuffers_idem: "looper_inv s \<Longrightarrow> ringL (ensureBuffers s) \<noteq> []"
  by (auto simp: looper_inv_def Let_def RING_MAX_SAMPLES_eq)

text \<open>The state after the ring write, before the state machine.\<close>

definition after_write :: "LooperIn \<Rightarrow> Looper \<Rightarrow> Looper" where
  "after_write i s =
     ring_write (fst (audio_in i)) (snd (audio_in i)) (fst (loop_length i (process_pre i s)))"

lemma after_write_fields:
  "ringL (after_write i s) = (ringL (ensureBuffers s))[nat (ringWritePos s) := fst (audio_in i)]"
  "ringR (after_write i s) = (ringR (ensureBuffers s))[nat (ringWritePos s) := snd (audio_in i)]"
  "ringSize (after_write i s) = ringSize (ensureBuffers s)"
  "ringWritePos (after_write i s) = (ringWritePos s + 1) smod ringSize (ensureBuffers s)"
  "loopL (after_write i s) = loopL (ensureBuffers s)"
  "loopR (after_write i s) = loopR (ensureBuffers s)"
  "looperState (after_write i s) = looperState s"
  "loopSamples (after_write i s) = loopSamples s"
  "buttonToggleState (after_write i s) = buttonToggleState (process_pre i s)"
  "prevButtonPressed (after_write i s) = prevButtonPressed (process_pre i s)"
  using loop_length_frame [of "process_pre i s" i] process_pre_frame [of i s]
  by (simp_all add: after_write_def ring_write_def same_ring_def)

lemma Looper_process_cases:
  "Looper_process i s =
     (case looperState s of
        LOOPER_IDLE \<Rightarrow>
          Some (if wantBuild i (process_pre i s)
                then enter_build (snd (loop_length i (process_pre i s))) (after_write i s)
                else after_write i s,
                \<lparr>AUDIO_L_OUTPUT = fst (audio_in i) * 10, AUDIO_R_OUTPUT = snd (audio_in i) * 10,
                 BUILD_LIGHT = 0\<rparr>)
      | BUILD \<Rightarrow>
          if \<not> wantBuild i (process_pre i s)
          then exit_fade_step (fade_length (sampleRate i) (snd (loop_length i (process_pre i s))))
                 (fst (audio_in i)) (snd (audio_in i))
                 ((after_write i s)\<lparr>looperState := EXIT_FADE, exitFadeSamples := 0\<rparr>)
          else build_step (sampleRate i)
                 (fade_length (sampleRate i) (snd (loop_length i (process_pre i s))))
                 (after_write i s)
      | EXIT_FADE \<Rightarrow>
          exit_fade_step (fade_length (sampleRate i) (snd (loop_length i (process_pre i s))))
            (fst (audio_in i)) (snd (audio_in i)) (after_write i s))"
  apply (subst after_write_fields(7) [symmetric, of s i])
  apply (simp add: Looper_process_def Let_def split_def after_write_def split: looper_state.split)
  done

lemma smod_nonneg:
  fixes a b :: int
  assumes "0 \<le> a" "0 < b"
  shows "a smod b = a mod b"
  using assms by (simp add: signed_modulo_int_def sgn_if)

lemma loop_length_ge_1: "1 \<le> snd (loop_length i s)"
  by (simp add: loop_length_def Let_def clamp_def)

lemma loop_length_le_max: "snd (loop_length i s) \<le> LOOP_MAX_SAMPLES"
  by (auto simp: loop_length_def Let_def clamp_def LOOP_MAX_SAMPLES_eq)

lemma ensureBuffers_fields:
  "ringWritePos (ensureBuffers s) = ringWritePos s"
  "looperState (ensureBuffers s) = looperState s"
  "loopSamples (ensureBuffers s) = loopSamples s"
  by (simp_all add: ensureBuffers_def)

lemma ensureBuffers_allocated: "ringL s \<noteq> [] \<Longrightarrow> ensureBuffers s = s"
  by (simp add: ensureBuffers_def)

lemma Looper_process_same_ring:
  assumes inv: "looper_inv s"
  shows "\<exists>s' out. Looper_process i s = Some (s', out) \<and> same_ring (after_write i s) s' \<and>
           (looperState s' = BUILD \<longrightarrow> 1 \<le> loopSamples s')"
proof (cases "looperState s")
  case LOOPER_IDLE
  show ?thesis
  proof (cases "wantBuild i (process_pre i s)")
    case True
    then show ?thesis
      using LOOPER_IDLE enter_build_frame [of "after_write i s" "snd (loop_length i (process_pre i s))"]
        loop_length_ge_1 [of i "process_pre i s"]
      by (simp add: Looper_process_cases)
  next
    case False
    then show ?thesis
      using LOOPER_IDLE by (simp add: Looper_process_cases same_ring_refl after_write_fields)
  qed
next
  case BUILD
  show ?thesis
  proof (cases "wantBuild i (process_pre i s)")
    case False
    define a where "a = (after_write i s)\<lparr>looperState := EXIT_FADE, exitFadeSamples := 0\<rparr>"
    define N where "N = fade_length (sampleRate i) (snd (loop_length i (process_pre i s)))"
    obtain s' out where r: "exit_fade_step N (fst (audio_in i)) (snd (audio_in i)) a = Some (s', out)"
      using exit_fade_step_total [of N "fst (audio_in i)" "snd (audio_in i)" a] by auto
    have "same_ring a s'" "looperState s' \<noteq> BUILD"
      using exit_fade_step_frame [OF r] by (simp_all add: a_def)
    moreover have "same_ring (after_write i s) a"
      by (simp add: a_def same_ring_def)
    ultimately have "same_ring (after_write i s) s'" "looperState s' \<noteq> BUILD"
      using same_ring_trans by blast+
    then show ?thesis
      using BUILD False r by (simp add: Looper_process_cases a_def N_def)
  next
    case True
    define N where "N = fade_length (sampleRate i) (snd (loop_length i (process_pre i s)))"
    have "1 \<le> loopSamples (after_write i s)"
      using inv BUILD by (simp add: looper_inv_def after_write_fields)
    then obtain s' out where r: "build_step (sampleRate i) N (after_write i s) = Some (s', out)"
      using build_step_total [of "after_write i s" "sampleRate i" N] by auto
    have "same_ring (after_write i s) s'" "loopSamples s' = loopSamples (after_write i s)"
      using build_step_frame [OF r] by simp_all
    then show ?thesis
      using BUILD True r \<open>1 \<le> loopSamples (after_write i s)\<close>
      by (simp add: Looper_process_cases N_def)
  qed
next
  case EXIT_FADE
  define N where "N = fade_length (sampleRate i) (snd (loop_length i (process_pre i s)))"
  obtain s' out where r:
    "exit_fade_step N (fst (audio_in i)) (snd (audio_in i)) (after_write i s) = Some (s', out)"
    using exit_fade_step_total [of N "fst (audio_in i)" "snd (audio_in i)" "after_write i s"] by auto
  have "same_ring (after_write i s) s'" "looperState s' \<noteq> BUILD"
    using exit_fade_step_frame [OF r] EXIT_FADE by (simp_all add: after_write_fields)
  then show ?thesis
    using EXIT_FADE r by (simp add: Looper_process_cases N_def)
qed

lemma after_write_inv:
  assumes inv: "looper_inv s" and sr: "same_ring (after_write i s) s'"
    and b: "looperState s' = BUILD \<longrightarrow> 1 \<le> loopSamples s'"
  shows "looper_inv s'"
    and "ringL s' = (ringL (ensureBuffers s))[nat (ringWritePos s) := fst (audio_in i)]"
    and "ringR s' = (ringR (ensureBuffers s))[nat (ringWritePos s) := snd (audio_in i)]"
    and "ringWritePos s' = (ringWritePos s + 1) mod RING_MAX_SAMPLES"
    and "ringSize s' = RING_MAX_SAMPLES"
    and "buttonToggleState s' = buttonToggleState (process_pre i s)"
    and "prevButtonPressed s' = prevButtonPressed (process_pre i s)"
proof -
  have e: "ringSize (ensureBuffers s) = RING_MAX_SAMPLES"
    "length (ringL (ensureBuffers s)) = nat RING_MAX_SAMPLES"
    "length (ringR (ensureBuffers s)) = nat RING_MAX_SAMPLES"
    "length (loopL (ensureBuffers s)) = nat LOOP_MAX_SAMPLES"
    "length (loopR (ensureBuffers s)) = nat LOOP_MAX_SAMPLES"
    "0 \<le> ringWritePos s" "ringWritePos s < RING_MAX_SAMPLES"
    using inv by (simp_all add: looper_inv_def Let_def ensureBuffers_fields)
  show L: "ringL s' = (ringL (ensureBuffers s))[nat (ringWritePos s) := fst (audio_in i)]"
    and R: "ringR s' = (ringR (ensureBuffers s))[nat (ringWritePos s) := snd (audio_in i)]"
    and "buttonToggleState s' = buttonToggleState (process_pre i s)"
    and "prevButtonPressed s' = prevButtonPressed (process_pre i s)"
    and sz: "ringSize s' = RING_MAX_SAMPLES"
    using sr e by (simp_all add: same_ring_def after_write_fields)
  have "ringWritePos s' = (ringWritePos s + 1) smod RING_MAX_SAMPLES"
    using sr e by (simp add: same_ring_def after_write_fields)
  also have "\<dots> = (ringWritePos s + 1) mod RING_MAX_SAMPLES"
    using e by (intro smod_nonneg) (simp_all add: RING_MAX_SAMPLES_eq)
  finally show wp: "ringWritePos s' = (ringWritePos s + 1) mod RING_MAX_SAMPLES" .
  have ne: "ringL s' \<noteq> []"
    using L e by (auto simp: RING_MAX_SAMPLES_eq)
  have len: "length (loopL s') = nat LOOP_MAX_SAMPLES" "length (loopR s') = nat LOOP_MAX_SAMPLES"
    using sr e by (simp_all add: same_ring_def after_write_fields)
  have "0 \<le> ringWritePos s'" "ringWritePos s' < RING_MAX_SAMPLES"
    unfolding wp by (simp_all add: RING_MAX_SAMPLES_eq)
  then show "looper_inv s'"
    using b L R e len sz
    by (simp add: looper_inv_def Let_def ensureBuffers_allocated [OF ne])
qed

lemma Looper_init_inv: "looper_inv Looper_init"
  by (simp add: looper_inv_def Looper_init_def ensureBuffers_def Let_def RING_MAX_SAMPLES_eq)

subsection \<open>Loop length and crossfade length\<close>

text \<open>
  The values of the locals \<^verbatim>\<open>L_samples\<close> and \<^verbatim>\<open>Nfade\<close> in the step that \<^verbatim>\<open>process\<close>
  makes from state \<open>s\<close> on input \<open>i\<close>; the read of \<^verbatim>\<open>readWithLoopCrossfade\<close> without its
  crossfade part; and an input vector with a clock cable, used below.
\<close>

definition step_L_samples :: "LooperIn \<Rightarrow> Looper \<Rightarrow> int" where
  "step_L_samples i s = snd (loop_length i (process_pre i s))"

definition step_Nfade :: "LooperIn \<Rightarrow> Looper \<Rightarrow> int" where
  "step_Nfade i s = fade_length (sampleRate i) (step_L_samples i s)"

definition plain_loop_read :: "real list \<Rightarrow> int \<Rightarrow> real \<Rightarrow> real option" where
  "plain_loop_read buf len pos =
     (if len \<le> 0 then Some 0
      else do {
        p1 \<leftarrow> wrap_down pos (real_of_int len);
        p \<leftarrow> wrap_up p1 (real_of_int len);
        readLinear buf len p
      })"

definition clock_in :: "real \<Rightarrow> LooperIn" where
  "clock_in v =
     \<lparr>sampleRate = 44100, BUILD_PARAM = 0, INTENSITY_PARAM = 1, TIME_PARAM = 8,
      LOOP_PARAM = 0.25, BAR_PARAM = 0, TRIG_INPUT = None, CLOCK_INPUT = Some v,
      INTENSITY_INPUT = None, AUDIO_L_INPUT = None, AUDIO_R_INPUT = None\<rparr>"

lemma Looper_process_idle:
  "looperState s = LOOPER_IDLE \<Longrightarrow> \<not> wantBuild i (process_pre i s) \<Longrightarrow>
   Looper_process i s =
     Some (after_write i s,
           \<lparr>AUDIO_L_OUTPUT = fst (audio_in i) * 10, AUDIO_R_OUTPUT = snd (audio_in i) * 10,
            BUILD_LIGHT = 0\<rparr>)"
  by (simp add: Looper_process_cases)

lemma seven_sdiv_2: "(7::int) sdiv 2 = 3"
  by (simp add: signed_divide_int_def)

lemma fast_clock_run:
  "Looper_run Looper_init [clock_in 10, clock_in 0] =
     Some (after_write (clock_in 0) (after_write (clock_in 10) Looper_init))"
  by (simp add: Looper_process_idle after_write_fields wantBuild_def process_pre_frame
      isConnected_def getVoltage_def clock_in_def Looper_init_def)

lemma update_clock_fields:
  "beatPeriodSamples (update_clock i s) =
     (if getVoltage (CLOCK_INPUT i) \<ge> 0.5 \<and> \<not> prevClockHigh s \<and>
         clockSampleCounter s - lastClockSample s > 0 \<and>
         clockSampleCounter s - lastClockSample s < trunc_int (sampleRate i * 4)
      then 0.1 * beatPeriodSamples s + 0.9 * real_of_int (clockSampleCounter s - lastClockSample s)
      else beatPeriodSamples s)"
  "prevClockHigh (update_clock i s) = (getVoltage (CLOCK_INPUT i) \<ge> 0.5)"
  "clockSampleCounter (update_clock i s) = clockSampleCounter s + 1"
  "lastClockSample (update_clock i s) =
     (if getVoltage (CLOCK_INPUT i) \<ge> 0.5 \<and> \<not> prevClockHigh s then clockSampleCounter s
      else lastClockSample s)"
  "smoothedLoopSec (update_clock i s) = smoothedLoopSec s"
  "ringSize (update_clock i s) = ringSize s"
  by (simp_all add: update_clock_def Let_def)

lemma process_pre_clock_fields:
  "beatPeriodSamples (process_pre i s) = beatPeriodSamples s"
  "prevClockHigh (process_pre i s) = prevClockHigh s"
  "clockSampleCounter (process_pre i s) = clockSampleCounter s"
  "lastClockSample (process_pre i s) = lastClockSample s"
  "smoothedLoopSec (process_pre i s) =
     smoothedLoopSec s + (LOOP_PARAM i - smoothedLoopSec s) * 0.0005"
  by (simp_all add: process_pre_def update_smoothing_def update_button_def fix_exitFadeTotal_def
      ensureBuffers_def Let_def)

lemma after_write_clock_fields:
  assumes "isConnected (CLOCK_INPUT i)"
  shows "beatPeriodSamples (after_write i s) = beatPeriodSamples (update_clock i (process_pre i s))"
    "prevClockHigh (after_write i s) = prevClockHigh (update_clock i (process_pre i s))"
    "clockSampleCounter (after_write i s) = clockSampleCounter (update_clock i (process_pre i s))"
    "lastClockSample (after_write i s) = lastClockSample (update_clock i (process_pre i s))"
  using assms by (simp_all add: after_write_def ring_write_def loop_length_def Let_def)

lemma step_L_samples_clocked:
  assumes "isConnected (CLOCK_INPUT i)"
    and "0 < beatPeriodSamples (update_clock i (process_pre i s))"
    and "0 < ringSize (ensureBuffers s)"
  shows "step_L_samples i s =
     clamp (trunc_int (real_of_int (2 ^ nat (clamp (trunc_int (BAR_PARAM i + 0.5)) 0 3) * 4) *
                       beatPeriodSamples (update_clock i (process_pre i s))))
       1 (min LOOP_MAX_SAMPLES (ringSize (ensureBuffers s)))"
  using assms process_pre_frame [of i s]
  by (simp add: step_L_samples_def loop_length_def Let_def update_clock_fields)

lemma clock_in_fields:
  "isConnected (CLOCK_INPUT (clock_in v))" "getVoltage (CLOCK_INPUT (clock_in v)) = v"
  "sampleRate (clock_in v) = 44100" "BAR_PARAM (clock_in v) = 0"
  by (simp_all add: clock_in_def isConnected_def getVoltage_def)

lemma fast_clock_beat:
  "beatPeriodSamples (update_clock (clock_in 10)
     (process_pre (clock_in 10) (after_write (clock_in 0) (after_write (clock_in 10) Looper_init)))) = 9 / 5"
  by (simp add: update_clock_fields process_pre_clock_fields after_write_clock_fields clock_in_fields
      trunc_int_def Looper_init_def)

lemma after_write_looper_inv:
  assumes "looper_inv s"
  shows "looper_inv (after_write i s)"
proof (rule after_write_inv(1) [OF assms same_ring_refl])
  show "looperState (after_write i s) = BUILD \<longrightarrow> 1 \<le> loopSamples (after_write i s)"
    using assms by (simp add: after_write_fields looper_inv_def)
qed

lemma looper_inv_ringSize: "looper_inv s \<Longrightarrow> ringSize (ensureBuffers s) = RING_MAX_SAMPLES"
  by (simp add: looper_inv_def Let_def)

lemma fast_clock_L_samples: "step_L_samples (clock_in 10) (after_write (clock_in 0) (after_write (clock_in 10) Looper_init)) = 7"
proof -
  have "looper_inv (after_write (clock_in 0) (after_write (clock_in 10) Looper_init))"
    by (intro after_write_looper_inv Looper_init_inv)
  then have "ringSize (ensureBuffers (after_write (clock_in 0) (after_write (clock_in 10) Looper_init))) = 480000"
    by (simp add: looper_inv_ringSize RING_MAX_SAMPLES_eq)
  then show ?thesis
    by (simp add: step_L_samples_clocked clock_in_fields fast_clock_beat trunc_int_def clamp_def
        LOOP_MAX_SAMPLES_eq)
qed

lemma fade_length_cases:
  "(8 \<le> L \<longrightarrow> fade_length sr L \<le> L sdiv 2) \<and>
   (1 \<le> L \<and> L < 8 \<longrightarrow> fade_length sr L = 4 \<and> L sdiv 2 < fade_length sr L)"
proof -
  define h where "h = L sdiv 2"
  have d: "h = L div 2" if "0 \<le> L"
    using that by (simp add: h_def signed_divide_int_def sgn_if)
  have f: "fade_length sr L = max (min (trunc_int (LOOP_FADE_MS * 0.001 * sr)) h) 4"
    by (simp add: fade_length_def clamp_def h_def)
  have "8 \<le> L \<longrightarrow> 4 \<le> h" using d by auto
  moreover have "1 \<le> L \<and> L < 8 \<longrightarrow> h < 4" using d by auto
  ultimately show ?thesis
    unfolding f h_def [symmetric] by auto
qed

lemma readWithLoopCrossfade_guard:
  assumes "Nfade \<le> 0 \<or> len < 2 * Nfade"
  shows "readWithLoopCrossfade buf len pos Nfade = plain_loop_read buf len pos"
proof (cases "len \<le> 0")
  case True
  then show ?thesis by (simp add: readWithLoopCrossfade_def plain_loop_read_def)
next
  case False
  have "(\<lambda>end. if Nfade \<le> 0 \<or> len < 2 * Nfade then Some end else g end) = Some" for g :: "real \<Rightarrow> real option"
    using assms by auto
  then show ?thesis
    using False assms
    by (simp add: readWithLoopCrossfade_def plain_loop_read_def Let_def cong: if_cong)
qed

text \<open>
  C5, as stated: the crossfade length of a step would never exceed half the loop length of
  that step. At 44.1 kHz, feed a fresh module a clock that is high, low, high on three
  consecutive samples: the measured beat is \<open>0.9 * 2\<close> samples, the loop length of the
  third step is \<open>7\<close>, and \<^verbatim>\<open>clamp(441, 4, 3)\<close> is \<open>4\<close>.
\<close>

theorem crossfade_window_exceeds_half_loop:
  "step_L_samples (clock_in 10) (the (Looper_run Looper_init [clock_in 10, clock_in 0])) = 7 \<and>
   step_Nfade (clock_in 10) (the (Looper_run Looper_init [clock_in 10, clock_in 0])) = 4 \<and>
   \<not> step_Nfade (clock_in 10) (the (Looper_run Looper_init [clock_in 10, clock_in 0]))
       \<le> step_L_samples (clock_in 10) (the (Looper_run Looper_init [clock_in 10, clock_in 0])) sdiv 2"
  unfolding fast_clock_run option.sel
  using fade_length_cases [of 7 44100]
  by (simp add: fast_clock_L_samples step_Nfade_def clock_in_fields seven_sdiv_2)

text \<open>
  C5, amended. In every step the loop length is at least \<open>1\<close>; the crossfade length is at
  most half the loop length whenever the loop length is at least \<open>8\<close>; for a shorter loop
  length the lower clamp bound wins and the crossfade length is \<open>4\<close>, more than half the
  loop length. \<^verbatim>\<open>readWithLoopCrossfade\<close> guards against that case: on a loop shorter than
  twice the crossfade length it applies no crossfade.
\<close>

theorem crossfade_window_bound:
  "1 \<le> step_L_samples i s \<and>
   (8 \<le> step_L_samples i s \<longrightarrow> step_Nfade i s \<le> step_L_samples i s sdiv 2) \<and>
   (step_L_samples i s < 8 \<longrightarrow>
      step_Nfade i s = 4 \<and> step_L_samples i s sdiv 2 < step_Nfade i s) \<and>
   (\<forall>len. len < 2 * step_Nfade i s \<longrightarrow>
      readWithLoopCrossfade buf len pos (step_Nfade i s) = plain_loop_read buf len pos)"
proof -
  have 1: "1 \<le> step_L_samples i s"
    by (simp add: step_L_samples_def loop_length_ge_1)
  show ?thesis
    using 1 fade_length_cases [of "step_L_samples i s" "sampleRate i"]
    by (auto simp: step_Nfade_def readWithLoopCrossfade_guard)
qed

theorem crossfade_window_bound_witness:
  "step_L_samples (clock_in 10) (after_write (clock_in 0) (after_write (clock_in 10) Looper_init)) = 7 \<and>
   step_Nfade (clock_in 10) (after_write (clock_in 0) (after_write (clock_in 10) Looper_init)) = 4 \<and>
   readWithLoopCrossfade [1, 2, 3, 4, 5, 6, 7] 7 0
     (step_Nfade (clock_in 10) (after_write (clock_in 0) (after_write (clock_in 10) Looper_init))) =
   plain_loop_read [1, 2, 3, 4, 5, 6, 7] 7 0"
proof -
  note t = crossfade_window_bound [of "clock_in 10"
      "after_write (clock_in 0) (after_write (clock_in 10) Looper_init)" "[1, 2, 3, 4, 5, 6, 7]" 0]
  have N: "step_Nfade (clock_in 10)
      (after_write (clock_in 0) (after_write (clock_in 10) Looper_init)) = 4"
    using t by (simp add: fast_clock_L_samples)
  have "readWithLoopCrossfade [1, 2, 3, 4, 5, 6, 7] 7 0 4 = plain_loop_read [1, 2, 3, 4, 5, 6, 7] 7 0"
    using t [THEN conjunct2, THEN conjunct2, THEN conjunct2, rule_format, of 7]
    by (simp add: N)
  then show ?thesis by (simp add: N fast_clock_L_samples)
qed

subsection \<open>The BUILD button\<close>

lemma Looper_process_button:
  assumes "looper_inv s"
  shows "\<exists>s' out. Looper_process i s = Some (s', out) \<and> looper_inv s' \<and>
           prevButtonPressed s' = (BUILD_PARAM i \<ge> 0.5) \<and>
           buttonToggleState s' =
             (if (BUILD_PARAM i \<ge> 0.5) \<noteq> prevButtonPressed s then \<not> buttonToggleState s
              else buttonToggleState s)"
proof -
  obtain s' out where r: "Looper_process i s = Some (s', out)"
    and sr: "same_ring (after_write i s) s'"
    and b: "looperState s' = BUILD \<longrightarrow> 1 \<le> loopSamples s'"
    using Looper_process_same_ring [OF assms, of i] by blast
  note f = after_write_inv [OF assms sr b]
  show ?thesis
    using r f(1) f(6) f(7) process_pre_frame [of i s] by simp
qed

lemma Looper_run_snoc:
  "Looper_run s (is @ [i]) =
     (case Looper_run s is of None \<Rightarrow> None
      | Some s1 \<Rightarrow> (case Looper_process i s1 of None \<Rightarrow> None | Some (s', out) \<Rightarrow> Some s'))"
  by (induction "is" arbitrary: s) (auto split: option.splits)

lemma Looper_run_held:
  assumes "looper_inv s" and "\<forall>h \<in> set held. BUILD_PARAM h \<ge> 0.5" and "prevButtonPressed s"
  shows "\<exists>s1. Looper_run s held = Some s1 \<and> looper_inv s1 \<and> prevButtonPressed s1 \<and>
           buttonToggleState s1 = buttonToggleState s"
  using assms
proof (induction held arbitrary: s)
  case Nil
  then show ?case by simp
next
  case (Cons h held)
  obtain s' out where r: "Looper_process h s = Some (s', out)" and i: "looper_inv s'"
    and p: "prevButtonPressed s'" and t: "buttonToggleState s' = buttonToggleState s"
    using Looper_process_button [OF Cons.prems(1), of h] Cons.prems(2,3) by auto
  obtain s1 where "Looper_run s' held = Some s1" "looper_inv s1" "prevButtonPressed s1"
    "buttonToggleState s1 = buttonToggleState s'"
    using Cons.IH [OF i _ p] Cons.prems(2) by auto
  then show ?case using r t by simp
qed

text \<open>
  C10. In every step the toggle flips exactly when the pressed state of the button
  (\<^verbatim>\<open>BUILD_PARAM >= 0.5\<close>) differs from the one of the previous step, on a release as
  well as on a press. So from a released button, holding the button for any number of
  samples leaves the toggle flipped once, and the release that follows flips it back.
\<close>

theorem build_toggle_flips_on_every_edge:
  assumes "looper_inv s"
  shows "(\<exists>s' out. Looper_process i s = Some (s', out) \<and>
            prevButtonPressed s' = (BUILD_PARAM i \<ge> 0.5) \<and>
            buttonToggleState s' =
              (if (BUILD_PARAM i \<ge> 0.5) \<noteq> prevButtonPressed s then \<not> buttonToggleState s
               else buttonToggleState s)) \<and>
         (\<not> prevButtonPressed s \<and> held \<noteq> [] \<and> (\<forall>h \<in> set held. BUILD_PARAM h \<ge> 0.5) \<and>
          BUILD_PARAM rel < 0.5 \<longrightarrow>
            (\<exists>s1 s2. Looper_run s held = Some s1 \<and> Looper_run s (held @ [rel]) = Some s2 \<and>
               buttonToggleState s1 = (\<not> buttonToggleState s) \<and>
               buttonToggleState s2 = buttonToggleState s))"
proof (intro conjI impI)
  show "\<exists>s' out. Looper_process i s = Some (s', out) \<and>
            prevButtonPressed s' = (BUILD_PARAM i \<ge> 0.5) \<and>
            buttonToggleState s' =
              (if (BUILD_PARAM i \<ge> 0.5) \<noteq> prevButtonPressed s then \<not> buttonToggleState s
               else buttonToggleState s)"
    using Looper_process_button [OF assms, of i] by blast
next
  assume a: "\<not> prevButtonPressed s \<and> held \<noteq> [] \<and> (\<forall>h \<in> set held. BUILD_PARAM h \<ge> 0.5) \<and>
          BUILD_PARAM rel < 0.5"
  then obtain h hs where held: "held = h # hs" by (cases held) auto
  obtain s' out where r: "Looper_process h s = Some (s', out)" and i: "looper_inv s'"
    and p: "prevButtonPressed s'" and t: "buttonToggleState s' = (\<not> buttonToggleState s)"
    using Looper_process_button [OF assms, of h] a held by auto
  obtain s1 where r1: "Looper_run s' hs = Some s1" and i1: "looper_inv s1"
    and p1: "prevButtonPressed s1" and t1: "buttonToggleState s1 = buttonToggleState s'"
    using Looper_run_held [OF i _ p, of hs] a held by auto
  obtain s2 out2 where r2: "Looper_process rel s1 = Some (s2, out2)"
    and t2: "buttonToggleState s2 = (\<not> buttonToggleState s1)"
    using Looper_process_button [OF i1, of rel] a p1 by auto
  have "Looper_run s held = Some s1" using r r1 held by simp
  moreover from this have "Looper_run s (held @ [rel]) = Some s2"
    using r2 by (simp add: Looper_run_snoc)
  ultimately show "\<exists>s1 s2. Looper_run s held = Some s1 \<and> Looper_run s (held @ [rel]) = Some s2 \<and>
               buttonToggleState s1 = (\<not> buttonToggleState s) \<and>
               buttonToggleState s2 = buttonToggleState s"
    using t t1 t2 by simp
qed

text \<open>An input vector with nothing connected and the button at \<open>v\<close>.\<close>

definition button_in :: "real \<Rightarrow> LooperIn" where
  "button_in v =
     \<lparr>sampleRate = 44100, BUILD_PARAM = v, INTENSITY_PARAM = 1, TIME_PARAM = 8,
      LOOP_PARAM = 0.25, BAR_PARAM = 0, TRIG_INPUT = None, CLOCK_INPUT = None,
      INTENSITY_INPUT = None, AUDIO_L_INPUT = None, AUDIO_R_INPUT = None\<rparr>"

theorem build_toggle_flips_on_every_edge_witness:
  "looper_inv Looper_init \<and> \<not> prevButtonPressed Looper_init \<and>
   BUILD_PARAM (button_in 1) \<ge> 0.5 \<and> BUILD_PARAM (button_in 0) < 0.5 \<and>
   buttonToggleState (the (Looper_run Looper_init [button_in 1, button_in 1])) \<and>
   \<not> buttonToggleState (the (Looper_run Looper_init ([button_in 1, button_in 1] @ [button_in 0])))"
proof -
  note t = build_toggle_flips_on_every_edge [OF Looper_init_inv,
      of "button_in 1" "[button_in 1, button_in 1]" "button_in 0", THEN conjunct2]
  have "\<exists>s1 s2. Looper_run Looper_init [button_in 1, button_in 1] = Some s1 \<and>
          Looper_run Looper_init ([button_in 1, button_in 1] @ [button_in 0]) = Some s2 \<and>
          buttonToggleState s1 = (\<not> buttonToggleState Looper_init) \<and>
          buttonToggleState s2 = buttonToggleState Looper_init"
    by (rule t [rule_format]) (simp add: Looper_init_def button_in_def)
  then show ?thesis
    using Looper_init_inv by (auto simp: Looper_init_def button_in_def)
qed

subsection \<open>The snapshot taken on a build request\<close>

text \<open>
  \<open>ring_tail buf wp n\<close> reads the \<open>n\<close> cells before the write cursor \<open>wp\<close>, oldest first;
  \<open>recent n h\<close> is the last \<open>n\<close> elements of a list; \<open>written ch ins\<close> is everything the
  ring of channel \<open>ch\<close> has received since its allocation, in order: the zero fill, then one
  sample per processed input. \<open>ring_history\<close> ties the ring to such a stream.
\<close>

definition ring_tail :: "real list \<Rightarrow> int \<Rightarrow> nat \<Rightarrow> real list" where
  "ring_tail buf wp n =
     map (\<lambda>k. buf ! nat ((wp - int n + int k) mod RING_MAX_SAMPLES)) [0..<n]"

definition recent :: "nat \<Rightarrow> 'a list \<Rightarrow> 'a list" where
  "recent n h = drop (length h - n) h"

definition written :: "(real \<times> real \<Rightarrow> real) \<Rightarrow> LooperIn list \<Rightarrow> real list" where
  "written ch ins = replicate (nat RING_MAX_SAMPLES) 0 @ map (\<lambda>i. ch (audio_in i)) ins"

definition ring_history :: "Looper \<Rightarrow> real list \<Rightarrow> real list \<Rightarrow> bool" where
  "ring_history s hL hR \<longleftrightarrow>
     (\<forall>n \<le> nat RING_MAX_SAMPLES.
        ring_tail (ringL (ensureBuffers s)) (ringWritePos s) n = recent n hL \<and>
        ring_tail (ringR (ensureBuffers s)) (ringWritePos s) n = recent n hR)"

lemma mod_back_neq:
  fixes wp d N :: int
  assumes "0 \<le> wp" "wp < N" "1 \<le> d" "d < N"
  shows "(wp - d) mod N \<noteq> wp"
proof (cases "0 \<le> wp - d")
  case True
  then have "(wp - d) mod N = wp - d"
    using assms by (intro mod_pos_pos_trivial) simp_all
  then show ?thesis using assms by simp
next
  case False
  have "(wp - d) mod N = (wp - d + N) mod N" by simp
  also have "\<dots> = wp - d + N"
    using assms False by (intro mod_pos_pos_trivial) simp_all
  finally show ?thesis using assms by simp
qed

lemma upt_snoc_last: "1 \<le> n \<Longrightarrow> [0..<n] = [0..<n - 1] @ [n - 1]"
  by (cases n) simp_all

lemma ring_tail_write:
  assumes len: "length buf = nat RING_MAX_SAMPLES"
    and wp: "0 \<le> wp" "wp < RING_MAX_SAMPLES"
    and n: "1 \<le> n" "n \<le> nat RING_MAX_SAMPLES"
  shows "ring_tail (buf[nat wp := x]) ((wp + 1) mod RING_MAX_SAMPLES) n =
         ring_tail buf wp (n - 1) @ [x]"
proof -
  define N where "N = RING_MAX_SAMPLES"
  have N: "0 < N" "int n \<le> N" using n by (simp_all add: N_def RING_MAX_SAMPLES_eq)
  have idx: "((wp + 1) mod N - int n + int k) mod N = (wp - int (n - 1) + int k) mod N" for k
  proof -
    have "((wp + 1) mod N - int n + int k) mod N = ((wp + 1) mod N + (int k - int n)) mod N"
      by (simp add: algebra_simps)
    also have "\<dots> = (wp + 1 + (int k - int n)) mod N"
      by (rule mod_add_left_eq)
    also have "wp + 1 + (int k - int n) = wp - int (n - 1) + int k"
      using n by (simp add: of_nat_diff)
    finally show ?thesis .
  qed
  have split: "[0..<n] = [0..<n - 1] @ [n - 1]"
    using n(1) by (rule upt_snoc_last)
  have last: "(buf[nat wp := x]) ! nat ((wp - int (n - 1) + int (n - 1)) mod N) = x"
    using wp len by (simp add: N_def [symmetric])
  have old: "(buf[nat wp := x]) ! nat ((wp - int (n - 1) + int k) mod N) =
             buf ! nat ((wp - int (n - 1) + int k) mod N)" if "k < n - 1" for k
  proof -
    have "(wp - (int (n - 1) - int k)) mod N \<noteq> wp"
      using wp N that by (intro mod_back_neq) (simp_all add: N_def)
    moreover have "0 \<le> (wp - (int (n - 1) - int k)) mod N"
      using N by simp
    ultimately have "nat ((wp - (int (n - 1) - int k)) mod N) \<noteq> nat wp"
      using wp by (simp add: nat_eq_iff)
    moreover have "wp - (int (n - 1) - int k) = wp - int (n - 1) + int k" by simp
    ultimately have "nat wp \<noteq> nat ((wp - int (n - 1) + int k) mod N)"
      by (simp only: )
    then show ?thesis by (rule nth_list_update_neq)
  qed
  have "ring_tail (buf[nat wp := x]) ((wp + 1) mod N) n =
        map (\<lambda>k. (buf[nat wp := x]) ! nat ((wp - int (n - 1) + int k) mod N)) [0..<n]"
    by (simp add: ring_tail_def N_def [symmetric] idx)
  also have "\<dots> = map (\<lambda>k. (buf[nat wp := x]) ! nat ((wp - int (n - 1) + int k) mod N)) [0..<n - 1] @ [x]"
    by (subst split) (simp only: map_append list.map last)
  also have "map (\<lambda>k. (buf[nat wp := x]) ! nat ((wp - int (n - 1) + int k) mod N)) [0..<n - 1] =
             ring_tail buf wp (n - 1)"
    unfolding ring_tail_def N_def [symmetric]
  proof (rule map_cong [OF refl])
    fix k assume "k \<in> set [0..<n - 1]"
    then have "k < n - 1" by simp
    then show "(buf[nat wp := x]) ! nat ((wp - int (n - 1) + int k) mod N) =
               buf ! nat ((wp - int (n - 1) + int k) mod N)"
      by (rule old)
  qed
  finally show ?thesis by (simp add: N_def)
qed

lemma recent_snoc:
  assumes "1 \<le> n" "n - 1 \<le> length h"
  shows "recent n (h @ [x]) = recent (n - 1) h @ [x]"
proof -
  define j where "j = length h - (n - 1)"
  have j: "length (h @ [x]) - n = j" "j \<le> length h"
    using assms by (simp_all add: j_def)
  have "recent n (h @ [x]) = drop j (h @ [x])"
    by (simp only: recent_def j)
  also have "\<dots> = drop j h @ [x]"
    using j(2) by simp
  finally show ?thesis
    by (simp only: recent_def j_def)
qed

lemma ring_history_init:
  "ring_history Looper_init (written fst []) (written snd [])"
proof -
  have z: "ring_tail (replicate (nat RING_MAX_SAMPLES) 0) 0 n = replicate n 0"
    if "n \<le> nat RING_MAX_SAMPLES" for n
  proof -
    have "nat ((0 - int n + int k) mod RING_MAX_SAMPLES) < nat RING_MAX_SAMPLES" for k
      by (simp add: RING_MAX_SAMPLES_eq nat_less_iff)
    then have "replicate (nat RING_MAX_SAMPLES) (0::real) !
        nat ((0 - int n + int k) mod RING_MAX_SAMPLES) = 0" for k
      by (rule nth_replicate)
    then have "ring_tail (replicate (nat RING_MAX_SAMPLES) 0) 0 n = map (\<lambda>k. 0) [0..<n]"
      by (simp only: ring_tail_def)
    then show ?thesis by (simp add: map_replicate_const)
  qed
  have r: "recent n (replicate (nat RING_MAX_SAMPLES) (0::real)) = replicate n 0"
    if "n \<le> nat RING_MAX_SAMPLES" for n
    using that by (simp add: recent_def)
  have e: "ringL (ensureBuffers Looper_init) = replicate (nat RING_MAX_SAMPLES) 0"
    "ringR (ensureBuffers Looper_init) = replicate (nat RING_MAX_SAMPLES) 0"
    "ringWritePos Looper_init = 0"
    by (simp_all add: ensureBuffers_def Looper_init_def)
  show ?thesis
    unfolding ring_history_def written_def e by (simp add: z r)
qed

lemma ring_history_step:
  assumes inv: "looper_inv s" and h: "ring_history s hL hR"
    and len: "nat RING_MAX_SAMPLES \<le> length hL" "nat RING_MAX_SAMPLES \<le> length hR"
    and sr: "same_ring (after_write i s) s'"
    and b: "looperState s' = BUILD \<longrightarrow> 1 \<le> loopSamples s'"
  shows "ring_history s' (hL @ [fst (audio_in i)]) (hR @ [snd (audio_in i)])"
proof -
  note f = after_write_inv [OF inv sr b]
  have e: "length (ringL (ensureBuffers s)) = nat RING_MAX_SAMPLES"
    "length (ringR (ensureBuffers s)) = nat RING_MAX_SAMPLES"
    "0 \<le> ringWritePos s" "ringWritePos s < RING_MAX_SAMPLES"
    using inv by (simp_all add: looper_inv_def Let_def ensureBuffers_fields)
  have ne: "ringL s' \<noteq> []"
    using f(2) e by (auto simp: RING_MAX_SAMPLES_eq)
  have eb: "ensureBuffers s' = s'" by (rule ensureBuffers_allocated [OF ne])
  have "ring_tail (ringL s') (ringWritePos s') n = recent n (hL @ [fst (audio_in i)]) \<and>
        ring_tail (ringR s') (ringWritePos s') n = recent n (hR @ [snd (audio_in i)])"
    if n: "n \<le> nat RING_MAX_SAMPLES" for n
  proof (cases "n = 0")
    case True
    then show ?thesis by (simp add: ring_tail_def recent_def)
  next
    case False
    then have n1: "1 \<le> n" by simp
    have n2: "n - 1 \<le> nat RING_MAX_SAMPLES" using n by simp
    have old: "ring_tail (ringL (ensureBuffers s)) (ringWritePos s) (n - 1) = recent (n - 1) hL"
      "ring_tail (ringR (ensureBuffers s)) (ringWritePos s) (n - 1) = recent (n - 1) hR"
      using h n2 by (simp_all add: ring_history_def)
    have "ring_tail (ringL s') (ringWritePos s') n =
          ring_tail (ringL (ensureBuffers s)) (ringWritePos s) (n - 1) @ [fst (audio_in i)]"
      unfolding f(2) f(4) by (rule ring_tail_write [OF e(1) e(3) e(4) n1 n])
    moreover have "ring_tail (ringR s') (ringWritePos s') n =
          ring_tail (ringR (ensureBuffers s)) (ringWritePos s) (n - 1) @ [snd (audio_in i)]"
      unfolding f(3) f(4) by (rule ring_tail_write [OF e(2) e(3) e(4) n1 n])
    moreover have "recent n (hL @ [fst (audio_in i)]) = recent (n - 1) hL @ [fst (audio_in i)]"
      using n1 n2 len by (intro recent_snoc) simp_all
    moreover have "recent n (hR @ [snd (audio_in i)]) = recent (n - 1) hR @ [snd (audio_in i)]"
      using n1 n2 len by (intro recent_snoc) simp_all
    ultimately show ?thesis by (simp only: old simp_thms)
  qed
  then show ?thesis
    unfolding ring_history_def eb by blast
qed

lemma written_snoc: "written ch (ins @ [i]) = written ch ins @ [ch (audio_in i)]"
  by (simp add: written_def)

lemma length_written: "nat RING_MAX_SAMPLES \<le> length (written ch ins)"
  by (simp add: written_def)

lemma Looper_run_history:
  "\<exists>s. Looper_run Looper_init ins = Some s \<and> looper_inv s \<and>
       ring_history s (written fst ins) (written snd ins)"
proof (induction ins rule: rev_induct)
  case Nil
  show ?case using Looper_init_inv ring_history_init by simp
next
  case (snoc i ins)
  then obtain s where s: "Looper_run Looper_init ins = Some s" and inv: "looper_inv s"
    and h: "ring_history s (written fst ins) (written snd ins)"
    by blast
  obtain s' out where r: "Looper_process i s = Some (s', out)"
    and sr: "same_ring (after_write i s) s'"
    and b: "looperState s' = BUILD \<longrightarrow> 1 \<le> loopSamples s'"
    using Looper_process_same_ring [OF inv, of i] by blast
  have "looper_inv s'" by (rule after_write_inv(1) [OF inv sr b])
  moreover have "ring_history s' (written fst (ins @ [i])) (written snd (ins @ [i]))"
    unfolding written_snoc
    by (rule ring_history_step [OF inv h length_written length_written sr b])
  moreover have "Looper_run Looper_init (ins @ [i]) = Some s'"
    using s r by (simp add: Looper_run_snoc)
  ultimately show ?case by blast
qed

lemma take_as_map: "n \<le> length xs \<Longrightarrow> take n xs = map (\<lambda>k. xs ! k) [0..<n]"
  by (rule nth_equalityI) simp_all

lemma copy_loop_cells:
  assumes "0 \<le> i"
  shows "length (loopL (copy_loop start L i s)) = length (loopL s) \<and>
         length (loopR (copy_loop start L i s)) = length (loopR s) \<and>
         (\<forall>k < length (loopL s). loopL (copy_loop start L i s) ! k =
            (if nat i \<le> k \<and> int k < L then ringL s ! nat ((start + int k) smod ringSize s)
             else loopL s ! k)) \<and>
         (\<forall>k < length (loopR s). loopR (copy_loop start L i s) ! k =
            (if nat i \<le> k \<and> int k < L then ringR s ! nat ((start + int k) smod ringSize s)
             else loopR s ! k))"
  using assms
proof (induction start L i s rule: copy_loop.induct)
  case (1 start L i s)
  show ?case
  proof (cases "i < L")
    case False
    have "copy_loop start L i s = s"
      using False by (subst copy_loop.simps) simp
    then show ?thesis using False "1.prems" by auto
  next
    case True
    define s1 where "s1 = s\<lparr>loopL := (loopL s)[nat i := ringL s ! nat ((start + i) smod ringSize s)],
                    loopR := (loopR s)[nat i := ringR s ! nat ((start + i) smod ringSize s)]\<rparr>"
    have step: "copy_loop start L i s = copy_loop start L (i + 1) s1"
      using True by (subst copy_loop.simps) (simp add: s1_def Let_def)
    have s1: "ringL s1 = ringL s" "ringR s1 = ringR s" "ringSize s1 = ringSize s"
      "loopL s1 = (loopL s)[nat i := ringL s ! nat ((start + i) smod ringSize s)]"
      "loopR s1 = (loopR s)[nat i := ringR s ! nat ((start + i) smod ringSize s)]"
      by (simp_all add: s1_def)
    have i1: "nat (i + 1) = Suc (nat i)" "int (nat i) = i"
      using "1.prems" by simp_all
    have IH: "length (loopL (copy_loop start L (i + 1) s1)) = length (loopL s1) \<and>
         length (loopR (copy_loop start L (i + 1) s1)) = length (loopR s1) \<and>
         (\<forall>k < length (loopL s1). loopL (copy_loop start L (i + 1) s1) ! k =
            (if nat (i + 1) \<le> k \<and> int k < L then ringL s1 ! nat ((start + int k) smod ringSize s1)
             else loopL s1 ! k)) \<and>
         (\<forall>k < length (loopR s1). loopR (copy_loop start L (i + 1) s1) ! k =
            (if nat (i + 1) \<le> k \<and> int k < L then ringR s1 ! nat ((start + int k) smod ringSize s1)
             else loopR s1 ! k))"
      using "1.IH" [OF True refl, folded s1_def] "1.prems" by simp
    have cellL: "loopL s1 ! k =
        (if k = nat i then ringL s ! nat ((start + int k) smod ringSize s) else loopL s ! k)"
      if "k < length (loopL s)" for k
      using that i1 by (simp add: s1 nth_list_update)
    have cellR: "loopR s1 ! k =
        (if k = nat i then ringR s ! nat ((start + int k) smod ringSize s) else loopR s ! k)"
      if "k < length (loopR s)" for k
      using that i1 by (simp add: s1 nth_list_update)
    have iL: "int (nat i) < L" using True i1 by simp
    show ?thesis
      unfolding step
      using IH cellL cellR iL "1.prems"
      by (auto simp: s1 i1(1))
  qed
qed

lemma enter_build_snapshot:
  assumes len: "length (loopL s) = nat LOOP_MAX_SAMPLES" "length (loopR s) = nat LOOP_MAX_SAMPLES"
    and sz: "ringSize s = RING_MAX_SAMPLES"
    and wp: "0 \<le> ringWritePos s" "ringWritePos s < RING_MAX_SAMPLES"
    and L: "1 \<le> L" "L \<le> LOOP_MAX_SAMPLES"
  shows "take (nat L) (loopL (enter_build L s)) = ring_tail (ringL s) (ringWritePos s) (nat L)"
    and "take (nat L) (loopR (enter_build L s)) = ring_tail (ringR s) (ringWritePos s) (nat L)"
proof -
  define N where "N = RING_MAX_SAMPLES"
  define start where "start = (ringWritePos s - L + ringSize s) smod ringSize s"
  define c where "c = copy_loop start L 0 s"
  have N: "0 < N" "L < N"
    using L by (simp_all add: N_def RING_MAX_SAMPLES_eq LOOP_MAX_SAMPLES_eq)
  have st: "start = (ringWritePos s - L) mod N"
  proof -
    have "start = (ringWritePos s - L + N) mod N"
      unfolding start_def sz N_def [symmetric]
      using wp N by (intro smod_nonneg) simp_all
    then show ?thesis by simp
  qed
  have idx: "(start + int k) smod ringSize s = (ringWritePos s - int (nat L) + int k) mod N" for k
  proof -
    have "0 \<le> start" using N by (simp add: st)
    then have "(start + int k) smod N = (start + int k) mod N"
      using N by (intro smod_nonneg) simp_all
    also have "\<dots> = (ringWritePos s - L + int k) mod N"
      unfolding st by (rule mod_add_left_eq)
    finally show ?thesis using L by (simp add: sz N_def)
  qed
  note cells = copy_loop_cells [of 0 start L s, folded c_def, simplified]
  have lenc: "length (loopL c) = nat LOOP_MAX_SAMPLES" "length (loopR c) = nat LOOP_MAX_SAMPLES"
    using cells len by simp_all
  have nL: "nat L \<le> nat LOOP_MAX_SAMPLES" using L by simp
  have e: "loopL (enter_build L s) = loopL c" "loopR (enter_build L s) = loopR c"
    by (simp_all add: enter_build_def Let_def c_def start_def)
  have "take (nat L) (loopL c) = map (\<lambda>k. loopL c ! k) [0..<nat L]"
    using nL lenc by (simp add: take_as_map)
  also have "\<dots> = map (\<lambda>k. ringL s ! nat ((ringWritePos s - int (nat L) + int k) mod N)) [0..<nat L]"
  proof (rule map_cong [OF refl])
    fix k assume "k \<in> set [0..<nat L]"
    then have k: "k < nat L" by simp
    then have "k < length (loopL s)" "int k < L" using nL len by simp_all
    then have "loopL c ! k = ringL s ! nat ((start + int k) smod ringSize s)"
      using cells by simp
    then show "loopL c ! k = ringL s ! nat ((ringWritePos s - int (nat L) + int k) mod N)"
      by (simp only: idx)
  qed
  finally show "take (nat L) (loopL (enter_build L s)) = ring_tail (ringL s) (ringWritePos s) (nat L)"
    by (simp add: e ring_tail_def N_def)
  have "take (nat L) (loopR c) = map (\<lambda>k. loopR c ! k) [0..<nat L]"
    using nL lenc by (simp add: take_as_map)
  also have "\<dots> = map (\<lambda>k. ringR s ! nat ((ringWritePos s - int (nat L) + int k) mod N)) [0..<nat L]"
  proof (rule map_cong [OF refl])
    fix k assume "k \<in> set [0..<nat L]"
    then have k: "k < nat L" by simp
    then have "k < length (loopR s)" "int k < L" using nL len by simp_all
    then have "loopR c ! k = ringR s ! nat ((start + int k) smod ringSize s)"
      using cells by simp
    then show "loopR c ! k = ringR s ! nat ((ringWritePos s - int (nat L) + int k) mod N)"
      by (simp only: idx)
  qed
  finally show "take (nat L) (loopR (enter_build L s)) = ring_tail (ringR s) (ringWritePos s) (nat L)"
    by (simp add: e ring_tail_def N_def)
qed

text \<open>
  C4. Let the module have processed the inputs \<open>ins\<close> since its construction and be in
  \<open>LOOPER_IDLE\<close>, and let the next input carry a build request (gate high, or no gate
  cable and the toggle on). Then the step returns, enters \<open>BUILD\<close>, sets \<^verbatim>\<open>loopSamples\<close> to
  the loop length \<open>L\<close> of the step and both playheads to \<open>0\<close>, and the first \<open>L\<close> cells of
  each loop buffer hold the \<open>L\<close> values most recently written to that channel's ring, the
  sample of this step last, in the order they were written.
\<close>

theorem build_request_snapshots_recent_samples:
  assumes run: "Looper_run Looper_init ins = Some s"
    and idle: "looperState s = LOOPER_IDLE"
    and want: "wantBuild i (process_pre i s)"
  shows "\<exists>s' out. Looper_process i s = Some (s', out) \<and>
           looperState s' = BUILD \<and> loopSamples s' = step_L_samples i s \<and>
           playheadL s' = 0 \<and> playheadR s' = 0 \<and>
           take (nat (step_L_samples i s)) (loopL s') =
             recent (nat (step_L_samples i s)) (written fst (ins @ [i])) \<and>
           take (nat (step_L_samples i s)) (loopR s') =
             recent (nat (step_L_samples i s)) (written snd (ins @ [i]))"
proof -
  define L where "L = step_L_samples i s"
  define a where "a = after_write i s"
  have inv: "looper_inv s" and h: "ring_history s (written fst ins) (written snd ins)"
    using Looper_run_history [of ins] run by auto
  have sr: "same_ring (after_write i s) a" by (simp add: a_def same_ring_refl)
  have b: "looperState a = BUILD \<longrightarrow> 1 \<le> loopSamples a"
    using idle by (simp add: a_def after_write_fields)
  note f = after_write_inv [OF inv sr b]
  have ha: "ring_history a (written fst (ins @ [i])) (written snd (ins @ [i]))"
    unfolding written_snoc
    by (rule ring_history_step [OF inv h length_written length_written sr b])
  have "length (ringL (ensureBuffers s)) = nat RING_MAX_SAMPLES"
    using inv by (simp add: looper_inv_def Let_def)
  then have ne: "ringL a \<noteq> []"
    using f(2) by (auto simp: RING_MAX_SAMPLES_eq)
  have eb: "ensureBuffers a = a" by (rule ensureBuffers_allocated [OF ne])
  have fa: "length (loopL a) = nat LOOP_MAX_SAMPLES" "length (loopR a) = nat LOOP_MAX_SAMPLES"
    "0 \<le> ringWritePos a" "ringWritePos a < RING_MAX_SAMPLES"
    using f(1) by (simp_all add: looper_inv_def Let_def eb)
  have L: "1 \<le> L" "L \<le> LOOP_MAX_SAMPLES"
    by (simp_all add: L_def step_L_samples_def loop_length_ge_1 loop_length_le_max)
  have nL: "nat L \<le> nat RING_MAX_SAMPLES"
    using L by (simp add: RING_MAX_SAMPLES_eq LOOP_MAX_SAMPLES_eq)
  note snap = enter_build_snapshot [OF fa(1) fa(2) f(5) fa(3) fa(4) L]
  have tails: "ring_tail (ringL a) (ringWritePos a) (nat L) = recent (nat L) (written fst (ins @ [i]))"
    "ring_tail (ringR a) (ringWritePos a) (nat L) = recent (nat L) (written snd (ins @ [i]))"
    using ha nL by (simp_all add: ring_history_def eb)
  have p: "Looper_process i s =
      Some (enter_build L a,
            \<lparr>AUDIO_L_OUTPUT = fst (audio_in i) * 10, AUDIO_R_OUTPUT = snd (audio_in i) * 10,
             BUILD_LIGHT = 0\<rparr>)"
    using idle want by (simp add: Looper_process_cases L_def step_L_samples_def a_def)
  show ?thesis
    unfolding L_def [symmetric] p
    using enter_build_frame [of a L] snap tails by simp
qed

text \<open>An input vector with a high gate and audio on the left input only.\<close>

definition gate_in :: LooperIn where
  "gate_in =
     \<lparr>sampleRate = 44100, BUILD_PARAM = 0, INTENSITY_PARAM = 1, TIME_PARAM = 8,
      LOOP_PARAM = 0.25, BAR_PARAM = 0, TRIG_INPUT = Some 5, CLOCK_INPUT = None,
      INTENSITY_INPUT = None, AUDIO_L_INPUT = Some 10, AUDIO_R_INPUT = None\<rparr>"

lemma gate_in_L: "step_L_samples gate_in Looper_init = 11025"
  by (simp add: step_L_samples_def loop_length_def Let_def process_pre_clock_fields
      gate_in_def isConnected_def Looper_init_def trunc_int_def clamp_def LOOP_MAX_SAMPLES_eq)

theorem build_request_snapshots_recent_samples_witness:
  "Looper_run Looper_init [] = Some Looper_init \<and> looperState Looper_init = LOOPER_IDLE \<and>
   wantBuild gate_in (process_pre gate_in Looper_init) \<and>
   looperState (fst (the (Looper_process gate_in Looper_init))) = BUILD \<and>
   loopSamples (fst (the (Looper_process gate_in Looper_init))) = 11025 \<and>
   last (take 11025 (loopL (fst (the (Looper_process gate_in Looper_init))))) = 1 \<and>
   last (take 11025 (loopR (fst (the (Looper_process gate_in Looper_init))))) = 1"
proof -
  have w: "wantBuild gate_in (process_pre gate_in Looper_init)"
    by (simp add: wantBuild_def gate_in_def getVoltage_def)
  have i: "looperState Looper_init = LOOPER_IDLE" by (simp add: Looper_init_def)
  have r: "Looper_run Looper_init [] = Some Looper_init" by simp
  obtain s' out where p: "Looper_process gate_in Looper_init = Some (s', out)"
    and c: "looperState s' = BUILD" "loopSamples s' = 11025"
      "take 11025 (loopL s') = recent 11025 (written fst ([] @ [gate_in]))"
      "take 11025 (loopR s') = recent 11025 (written snd ([] @ [gate_in]))"
    using build_request_snapshots_recent_samples [OF r i w] by (auto simp: gate_in_L)
  have a: "audio_in gate_in = (1, 1)"
    by (simp add: audio_in_def gate_in_def isConnected_def getVoltage_def)
  have "last (recent 11025 (written ch ([] @ [gate_in]))) = ch (1, 1)" for ch
    by (simp add: recent_def written_def a RING_MAX_SAMPLES_eq)
  then show ?thesis
    using w i p c by simp
qed

section \<open>Wavetable mip levels (WT_SURGE_X.cpp)\<close>

text \<open>
  \<^verbatim>\<open>struct WavetableBank\<close>: the array \<^verbatim>\<open>tables[NUM_BANKS][NUM_FRAMES][MIP_LEVELS][TABLE_SIZE]\<close>
  as nested lists, indexed bank, frame, mip level, sample. The mutex is not modelled.
\<close>

definition TABLE_SIZE :: int where
  "TABLE_SIZE = 2048"

definition NUM_FRAMES :: nat where
  "NUM_FRAMES = 64"

definition MIP_LEVELS :: nat where
  "MIP_LEVELS = 10"

definition NUM_BANKS :: nat where
  "NUM_BANKS = 2"

record WavetableBank =
  tables :: "real list list list list"
  tableReady :: bool

text \<open>
  The innermost loop of the mip generation, the same text in \<^verbatim>\<open>generateDefault\<close> and in
  \<^verbatim>\<open>loadWav\<close>:
  \<^verbatim>\<open>for (int k = s - step / 2; k <= s + step / 2; k += step)\<close>,
  which adds \<^verbatim>\<open>tables[bank][frame][0][idx]\<close> to \<^verbatim>\<open>sum\<close> (here \<open>acc\<close>) and counts in \<^verbatim>\<open>n\<close>,
  with \<^verbatim>\<open>idx = (k % TABLE_SIZE + TABLE_SIZE) % TABLE_SIZE\<close> and C's truncating \<^verbatim>\<open>%\<close>.
\<close>

function mip_window :: "real list \<Rightarrow> nat \<Rightarrow> int \<Rightarrow> int \<Rightarrow> real \<Rightarrow> int \<Rightarrow> real \<times> int" where
  "mip_window level0 mip s k acc n =
     (let step = (2 :: int) ^ mip
      in if k \<le> s + step sdiv 2
         then (let idx = (k smod TABLE_SIZE + TABLE_SIZE) smod TABLE_SIZE
               in mip_window level0 mip s (k + step) (acc + level0 ! nat idx) (n + 1))
         else (acc, n))"
  by pat_completeness auto
termination
  by (relation "measure (\<lambda>(level0, mip, s, k, acc, n). nat (s + 2 ^ mip sdiv 2 + 1 - k))") auto

declare mip_window.simps [simp del]

text \<open>
  One mip level of a frame (the loop over \<open>s\<close>), and the loop over the levels
  \<open>1, \<dots>, MIP_LEVELS - 1\<close>, which writes level \<open>mip\<close> of the frame in place.
\<close>

definition mip_level :: "real list \<Rightarrow> real list \<Rightarrow> nat \<Rightarrow> real list" where
  "mip_level level0 prev mip =
     map (\<lambda>s. let step = (2 :: int) ^ mip;
                 (acc, n) = mip_window level0 mip (int s) (int s - step sdiv 2) 0 0
             in if n > 0 then acc / real_of_int n else prev ! s)
       [0..<nat TABLE_SIZE]"

fun generate_mips :: "nat list \<Rightarrow> real list list \<Rightarrow> real list list" where
  "generate_mips [] frame = frame"
| "generate_mips (mip # mips) frame =
     generate_mips mips (frame[mip := mip_level (frame ! 0) (frame ! (mip - 1)) mip])"

text \<open>
  \<^verbatim>\<open>loadWav\<close>. What \<^verbatim>\<open>WavParser::load\<close> returns is an argument: \<open>None\<close> when it returns
  false, otherwise the resampled and normalised buffer of \<open>NUM_FRAMES * TABLE_SIZE\<close> samples.
\<close>

definition load_frame :: "real list \<Rightarrow> nat \<Rightarrow> real list list \<Rightarrow> real list list" where
  "load_frame buf f frame =
     generate_mips [1..<MIP_LEVELS]
       (frame[0 := map (\<lambda>s. buf ! (f * nat TABLE_SIZE + s)) [0..<nat TABLE_SIZE]])"

definition loadWav :: "nat \<Rightarrow> real list option \<Rightarrow> WavetableBank \<Rightarrow> WavetableBank" where
  "loadWav bank parsed w =
     (case parsed of
        None \<Rightarrow> w\<lparr>tableReady := True\<rparr>
      | Some buf \<Rightarrow>
          w\<lparr>tables := (tables w)
                 [bank := map (\<lambda>f. load_frame buf f (tables w ! bank ! f)) [0..<NUM_FRAMES]],
            tableReady := True\<rparr>)"

text \<open>
  \<^verbatim>\<open>generateDefault\<close>: the synthesised sample of level 0, the normalisation of the frame
  to its peak, then the same mip generation.
\<close>

definition default_sample :: "nat \<Rightarrow> nat \<Rightarrow> nat \<Rightarrow> real" where
  "default_sample bank frame s =
     (let t = real frame / real (NUM_FRAMES - 1);
          phase = real s / real_of_int TABLE_SIZE;
          sine = sin (2 * pi * phase)
      in if bank = 0
         then (let saw = 2 * phase - 1;
                   sq = (if phase < 0.5 then 1 else - 1);
                   rich = (sine + (\<Sum>h \<leftarrow> [2..<9]. 0.3 / real h * sin (2 * pi * phase * real h))) / 1.8
               in sine * (1 - t * 0.7) + saw * (t * 0.4) + sq * (t * 0.3) + rich * (t * 0.5))
         else (let w0 = 1;
                   w1 = 0.5 * (1 + sin (t * 2 * pi));
                   w2 = 0.3 * (1 + cos (t * 3 * pi));
                   formant = (\<Sum>h \<leftarrow> [1..<13].
                      (w0 / real h + w1 / real (h + 2) + w2 / real (h + 4)) * sin (2 * pi * phase * real h)) / 2.5
               in sine * (1 - t) + formant * t))"

definition normalise :: "real list \<Rightarrow> real list" where
  "normalise xs =
     (let peak = fold (\<lambda>v p. if \<bar>v\<bar> > p then \<bar>v\<bar> else p) xs 0.0001
      in map (\<lambda>v. v / peak) xs)"

definition default_frame :: "nat \<Rightarrow> nat \<Rightarrow> real list list \<Rightarrow> real list list" where
  "default_frame bank frame old =
     generate_mips [1..<MIP_LEVELS]
       (old[0 := normalise (map (default_sample bank frame) [0..<nat TABLE_SIZE])])"

definition generateDefault :: "WavetableBank \<Rightarrow> WavetableBank" where
  "generateDefault w =
     w\<lparr>tables := map (\<lambda>bank. map (\<lambda>frame. default_frame bank frame (tables w ! bank ! frame))
                               [0..<NUM_FRAMES])
                    [0..<NUM_BANKS]\<rparr>"

text \<open>The array has its declared dimensions.\<close>

definition shape_ok :: "WavetableBank \<Rightarrow> bool" where
  "shape_ok w \<longleftrightarrow>
     length (tables w) = NUM_BANKS \<and>
     (\<forall>b \<in> set (tables w). length b = NUM_FRAMES \<and>
        (\<forall>fr \<in> set b. length fr = MIP_LEVELS \<and> (\<forall>t \<in> set fr. length t = nat TABLE_SIZE)))"

text \<open>
  The box filter as the specification words it: level \<open>k\<close> at index \<open>s\<close> is the mean of a
  window of \<open>2 ^ k\<close> neighbouring, circularly wrapped samples of level 0 centred at \<open>s\<close>.
  \<open>window_mean level0 lo n\<close> is the mean of the \<open>n\<close> cells from \<open>lo\<close> on; \<open>box_average\<close>
  starts the window \<open>2 ^ (k - 1)\<close> cells before \<open>s\<close>.
\<close>

definition window_mean :: "real list \<Rightarrow> int \<Rightarrow> nat \<Rightarrow> real" where
  "window_mean level0 lo n =
     (\<Sum>j \<leftarrow> [0..<n]. level0 ! nat ((lo + int j) mod TABLE_SIZE)) / real n"

definition box_average :: "real list \<Rightarrow> nat \<Rightarrow> nat \<Rightarrow> real" where
  "box_average level0 k s = window_mean level0 (int s - 2 ^ (k - 1)) (2 ^ k)"

subsection \<open>What the mip generation computes\<close>

lemma c_wrap_index:
  assumes "- TABLE_SIZE < k"
  shows "(k smod TABLE_SIZE + TABLE_SIZE) smod TABLE_SIZE = k mod TABLE_SIZE"
proof (cases "0 \<le> k")
  case True
  then have "k smod TABLE_SIZE = k mod TABLE_SIZE"
    by (simp add: signed_modulo_int_def sgn_if TABLE_SIZE_def)
  moreover have "0 \<le> k mod TABLE_SIZE + TABLE_SIZE" by (simp add: TABLE_SIZE_def)
  then have "(k mod TABLE_SIZE + TABLE_SIZE) smod TABLE_SIZE = (k mod TABLE_SIZE + TABLE_SIZE) mod TABLE_SIZE"
    by (intro smod_nonneg) (simp_all add: TABLE_SIZE_def)
  ultimately show ?thesis by simp
next
  case False
  then have "\<bar>k\<bar> mod TABLE_SIZE = - k"
    using assms by (simp add: TABLE_SIZE_def)
  then have "k smod TABLE_SIZE = k"
    using False by (simp add: signed_modulo_int_def sgn_if TABLE_SIZE_def)
  moreover have "(k + TABLE_SIZE) smod TABLE_SIZE = (k + TABLE_SIZE) mod TABLE_SIZE"
    using assms by (intro smod_nonneg) (simp_all add: TABLE_SIZE_def)
  ultimately show ?thesis by simp
qed

lemma mip_window_two_taps:
  assumes mip: "1 \<le> mip" "mip < MIP_LEVELS" and s: "0 \<le> s" "s < TABLE_SIZE"
  shows "mip_window level0 mip s (s - 2 ^ mip sdiv 2) 0 0 =
         (level0 ! nat ((s - 2 ^ (mip - 1)) mod TABLE_SIZE) +
          level0 ! nat ((s + 2 ^ (mip - 1)) mod TABLE_SIZE), 2)"
proof -
  define h :: int where "h = 2 ^ (mip - 1)"
  have step: "(2 :: int) ^ mip = 2 * h"
    using mip by (cases mip) (simp_all add: h_def)
  have half: "(2 * h) sdiv 2 = h"
    by (simp add: signed_divide_int_def h_def sgn_if)
  have "mip - 1 \<le> 8" using mip by (simp add: MIP_LEVELS_def)
  then have "(2 :: int) ^ (mip - 1) \<le> 2 ^ 8" by (intro power_increasing) simp_all
  then have h: "1 \<le> h" "h \<le> 256" by (simp_all add: h_def)
  have i0: "((s - h) smod TABLE_SIZE + TABLE_SIZE) smod TABLE_SIZE = (s - h) mod TABLE_SIZE"
    using s h by (intro c_wrap_index) (simp add: TABLE_SIZE_def)
  have "- TABLE_SIZE < s + h" using s h by (simp add: TABLE_SIZE_def)
  then have "((s + h) smod TABLE_SIZE + TABLE_SIZE) smod TABLE_SIZE = (s + h) mod TABLE_SIZE"
    by (rule c_wrap_index)
  moreover have "s - h + 2 * h = s + h" by simp
  ultimately have i1: "((s - h + 2 * h) smod TABLE_SIZE + TABLE_SIZE) smod TABLE_SIZE =
      (s + h) mod TABLE_SIZE"
    "((h + s) smod TABLE_SIZE + TABLE_SIZE) smod TABLE_SIZE = (s + h) mod TABLE_SIZE"
    by (simp_all only: add.commute [of h s])
  have "mip_window level0 mip s (s - h) 0 0 =
        mip_window level0 mip s (s - h + 2 * h) (0 + level0 ! nat ((s - h) mod TABLE_SIZE)) (0 + 1)"
    using h by (subst mip_window.simps) (simp add: step half i0 Let_def)
  also have "\<dots> = mip_window level0 mip s (s - h + 2 * h + 2 * h)
        (0 + level0 ! nat ((s - h) mod TABLE_SIZE) + level0 ! nat ((s + h) mod TABLE_SIZE)) (0 + 1 + 1)"
    using h by (subst mip_window.simps) (simp add: step half i1 Let_def)
  also have "\<dots> = (0 + level0 ! nat ((s - h) mod TABLE_SIZE) + level0 ! nat ((s + h) mod TABLE_SIZE), 0 + 1 + 1)"
    using h by (subst mip_window.simps) (simp add: step half Let_def)
  finally have r: "mip_window level0 mip s (s - h) 0 0 =
      (level0 ! nat ((s - h) mod TABLE_SIZE) + level0 ! nat ((s + h) mod TABLE_SIZE), 2)"
    by simp
  show ?thesis
    unfolding step half h_def [symmetric] by (rule r)
qed

text \<open>
  The stride of the window loop is the width of the window, so the loop visits its two end
  points and nothing between them: every level is a two-tap mean.
\<close>

definition two_tap :: "real list \<Rightarrow> nat \<Rightarrow> nat \<Rightarrow> real" where
  "two_tap level0 mip s =
     (level0 ! nat ((int s - 2 ^ (mip - 1)) mod TABLE_SIZE) +
      level0 ! nat ((int s + 2 ^ (mip - 1)) mod TABLE_SIZE)) / 2"

lemma mip_level_two_tap:
  assumes "1 \<le> mip" "mip < MIP_LEVELS"
  shows "mip_level level0 prev mip = map (two_tap level0 mip) [0..<nat TABLE_SIZE]"
  unfolding mip_level_def
proof (rule map_cong [OF refl])
  fix s assume "s \<in> set [0..<nat TABLE_SIZE]"
  then have s: "0 \<le> int s" "int s < TABLE_SIZE" by (simp_all add: TABLE_SIZE_def)
  show "(let step = (2 :: int) ^ mip;
             (acc, n) = mip_window level0 mip (int s) (int s - step sdiv 2) 0 0
         in if n > 0 then acc / real_of_int n else prev ! s) = two_tap level0 mip s"
    by (simp add: Let_def mip_window_two_taps [OF assms s] two_tap_def)
qed

lemma generate_mips_levels:
  assumes "\<forall>m \<in> set ms. 1 \<le> m \<and> m < MIP_LEVELS"
  shows "length (generate_mips ms frame) = length frame \<and>
         (\<forall>m < length frame. generate_mips ms frame ! m =
            (if m \<in> set ms then map (two_tap (frame ! 0) m) [0..<nat TABLE_SIZE] else frame ! m))"
  using assms
proof (induction ms arbitrary: frame)
  case Nil
  then show ?case by simp
next
  case (Cons mip ms)
  define frame' where "frame' = frame[mip := map (two_tap (frame ! 0) mip) [0..<nat TABLE_SIZE]]"
  have mip: "1 \<le> mip" "mip < MIP_LEVELS" using Cons.prems by simp_all
  have step: "generate_mips (mip # ms) frame = generate_mips ms frame'"
    by (simp add: frame'_def mip_level_two_tap [OF mip])
  have z: "frame' ! 0 = frame ! 0" using mip by (simp add: frame'_def)
  have IH: "length (generate_mips ms frame') = length frame' \<and>
         (\<forall>m < length frame'. generate_mips ms frame' ! m =
            (if m \<in> set ms then map (two_tap (frame' ! 0) m) [0..<nat TABLE_SIZE] else frame' ! m))"
    using Cons.prems by (intro Cons.IH) simp
  show ?case
    unfolding step using IH z by (auto simp: frame'_def nth_list_update)
qed

lemma load_frame_cells:
  assumes len: "length frame = MIP_LEVELS"
  shows "load_frame buf f frame ! 0 ! s = (map (\<lambda>s. buf ! (f * nat TABLE_SIZE + s)) [0..<nat TABLE_SIZE]) ! s"
    and "1 \<le> mip \<Longrightarrow> mip < MIP_LEVELS \<Longrightarrow>
         load_frame buf f frame ! mip =
           map (two_tap (map (\<lambda>s. buf ! (f * nat TABLE_SIZE + s)) [0..<nat TABLE_SIZE]) mip)
             [0..<nat TABLE_SIZE]"
proof -
  define fr where "fr = frame[0 := map (\<lambda>s. buf ! (f * nat TABLE_SIZE + s)) [0..<nat TABLE_SIZE]]"
  have l: "length fr = MIP_LEVELS" "fr ! 0 = map (\<lambda>s. buf ! (f * nat TABLE_SIZE + s)) [0..<nat TABLE_SIZE]"
    using len by (simp_all add: fr_def MIP_LEVELS_def)
  have ms: "\<forall>m \<in> set [1..<MIP_LEVELS]. 1 \<le> m \<and> m < MIP_LEVELS" by simp
  note g = generate_mips_levels [OF ms, of fr]
  show "load_frame buf f frame ! 0 ! s = (map (\<lambda>s. buf ! (f * nat TABLE_SIZE + s)) [0..<nat TABLE_SIZE]) ! s"
    using g l by (simp add: load_frame_def fr_def [symmetric] MIP_LEVELS_def)
  show "load_frame buf f frame ! mip =
           map (two_tap (map (\<lambda>s. buf ! (f * nat TABLE_SIZE + s)) [0..<nat TABLE_SIZE]) mip)
             [0..<nat TABLE_SIZE]" if "1 \<le> mip" "mip < MIP_LEVELS"
    using g l that by (simp add: load_frame_def fr_def [symmetric])
qed

lemma loadWav_cells:
  assumes sh: "shape_ok w" and b: "bank < NUM_BANKS" and f: "f < NUM_FRAMES"
    and s: "s < nat TABLE_SIZE"
  shows "tables (loadWav bank (Some buf) w) ! bank ! f ! 0 ! s = buf ! (f * nat TABLE_SIZE + s)"
    and "1 \<le> mip \<Longrightarrow> mip < MIP_LEVELS \<Longrightarrow>
         tables (loadWav bank (Some buf) w) ! bank ! f ! mip ! s =
           two_tap (map (\<lambda>s. buf ! (f * nat TABLE_SIZE + s)) [0..<nat TABLE_SIZE]) mip s"
proof -
  have lb: "bank < length (tables w)" using sh b by (simp add: shape_ok_def)
  then have "tables w ! bank \<in> set (tables w)" by simp
  then have lf: "length (tables w ! bank) = NUM_FRAMES"
    and fr: "\<forall>fr \<in> set (tables w ! bank). length fr = MIP_LEVELS"
    using sh by (simp_all add: shape_ok_def)
  have "tables w ! bank ! f \<in> set (tables w ! bank)" using lf f by simp
  then have len: "length (tables w ! bank ! f) = MIP_LEVELS" using fr by simp
  have cell: "tables (loadWav bank (Some buf) w) ! bank ! f = load_frame buf f (tables w ! bank ! f)"
    using lb f by (simp add: loadWav_def)
  show "tables (loadWav bank (Some buf) w) ! bank ! f ! 0 ! s = buf ! (f * nat TABLE_SIZE + s)"
    unfolding cell load_frame_cells(1) [OF len] using s by simp
  show "tables (loadWav bank (Some buf) w) ! bank ! f ! mip ! s =
           two_tap (map (\<lambda>s. buf ! (f * nat TABLE_SIZE + s)) [0..<nat TABLE_SIZE]) mip s"
    if "1 \<le> mip" "mip < MIP_LEVELS"
    unfolding cell load_frame_cells(2) [OF len that] using s by simp
qed

lemma generateDefault_cells:
  assumes sh: "shape_ok w" and b: "bank < NUM_BANKS" and f: "f < NUM_FRAMES"
    and s: "s < nat TABLE_SIZE" and mip: "1 \<le> mip" "mip < MIP_LEVELS"
  shows "tables (generateDefault w) ! bank ! f ! mip ! s =
           two_tap (normalise (map (default_sample bank f) [0..<nat TABLE_SIZE])) mip s"
proof -
  have lb: "bank < length (tables w)" using sh b by (simp add: shape_ok_def)
  then have "tables w ! bank \<in> set (tables w)" by simp
  then have lf: "length (tables w ! bank) = NUM_FRAMES"
    and fr: "\<forall>fr \<in> set (tables w ! bank). length fr = MIP_LEVELS"
    using sh by (simp_all add: shape_ok_def)
  have "tables w ! bank ! f \<in> set (tables w ! bank)" using lf f by simp
  then have len: "length (tables w ! bank ! f) = MIP_LEVELS" using fr by simp
  define fr0 where
    "fr0 = (tables w ! bank ! f)[0 := normalise (map (default_sample bank f) [0..<nat TABLE_SIZE])]"
  have l: "length fr0 = MIP_LEVELS"
    "fr0 ! 0 = normalise (map (default_sample bank f) [0..<nat TABLE_SIZE])"
    using len by (simp_all add: fr0_def MIP_LEVELS_def)
  have ms: "\<forall>m \<in> set [1..<MIP_LEVELS]. 1 \<le> m \<and> m < MIP_LEVELS" by simp
  have cell: "tables (generateDefault w) ! bank ! f = generate_mips [1..<MIP_LEVELS] fr0"
    using b f by (simp add: generateDefault_def default_frame_def fr0_def)
  show ?thesis
    unfolding cell using generate_mips_levels [OF ms, of fr0] l mip s by simp
qed


subsection \<open>Loading a wavetable file\<close>

text \<open>
  \<^verbatim>\<open>WavParser::load\<close> after the file is decoded to mono samples \<open>raw\<close>: a file with at least
  \<open>targetLen * targetFrames\<close> samples is cut into \<open>targetFrames\<close> stretches of
  \<open>raw.size() / targetFrames\<close> samples, each resampled linearly to \<open>targetLen\<close> cells; a shorter
  file is stretched as a whole. The result is divided by its peak.
\<close>

definition interp_long :: "real list \<Rightarrow> int \<Rightarrow> int \<Rightarrow> nat \<Rightarrow> nat \<Rightarrow> real" where
  "interp_long raw targetLen samplesPerFrame f s =
     (let size_raw = int (length raw);
          frameStart = int f * samplesPerFrame;
          t = real s / real_of_int targetLen * real_of_int (samplesPerFrame - 1);
          i0a = frameStart + trunc_int t;
          i0b = (if i0a < 0 then 0 else i0a);
          i0 = (if i0b \<ge> size_raw then size_raw - 1 else i0b);
          i1a = i0 + 1;
          i1 = (if i1a \<ge> size_raw then size_raw - 1 else i1a);
          frac = t - real_of_int (trunc_int t)
      in raw ! nat i0 * (1 - frac) + raw ! nat i1 * frac)"

definition interp_short :: "real list \<Rightarrow> int \<Rightarrow> nat \<Rightarrow> real" where
  "interp_short raw wantLen i =
     (let size_raw = int (length raw);
          t = real i / real_of_int wantLen * real_of_int size_raw;
          i0a = trunc_int t;
          i0 = (if i0a \<ge> size_raw then size_raw - 1 else i0a);
          i1a = i0 + 1;
          i1 = (if i1a \<ge> size_raw then size_raw - 1 else i1a);
          frac = t - real_of_int i0
      in raw ! nat i0 * (1 - frac) + raw ! nat i1 * frac)"

definition resample :: "real list \<Rightarrow> int \<Rightarrow> int \<Rightarrow> real list" where
  "resample raw targetLen targetFrames =
     (let wantLen = targetLen * targetFrames;
          size_raw = int (length raw)
      in if size_raw \<ge> wantLen
         then (let samplesPerFrame = size_raw sdiv targetFrames
               in concat (map (\<lambda>f. map (interp_long raw targetLen samplesPerFrame f)
                                        [0..<nat targetLen])
                            [0..<nat targetFrames]))
         else map (interp_short raw wantLen) [0..<nat wantLen])"

definition WavParser_load :: "real list \<Rightarrow> int \<Rightarrow> int \<Rightarrow> real list" where
  "WavParser_load raw targetLen targetFrames = normalise (resample raw targetLen targetFrames)"

lemma peak_lower:
  fixes xs :: "real list"
  shows "p \<le> fold (\<lambda>v p. if \<bar>v\<bar> > p then \<bar>v\<bar> else p) xs p \<and>
   (\<forall>v \<in> set xs. \<bar>v\<bar> \<le> fold (\<lambda>v p. if \<bar>v\<bar> > p then \<bar>v\<bar> else p) xs p)"
proof (induction xs arbitrary: p)
  case Nil
  show ?case by simp
next
  case (Cons x xs)
  define q :: real where "q = (if \<bar>x\<bar> > p then \<bar>x\<bar> else p)"
  have q: "p \<le> q" "\<bar>x\<bar> \<le> q" by (simp_all add: q_def)
  have "q \<le> fold (\<lambda>v p. if \<bar>v\<bar> > p then \<bar>v\<bar> else p) xs q \<and>
        (\<forall>v \<in> set xs. \<bar>v\<bar> \<le> fold (\<lambda>v p. if \<bar>v\<bar> > p then \<bar>v\<bar> else p) xs q)"
    by (rule Cons.IH)
  then show ?case
    using q unfolding fold_simps q_def [symmetric] by auto
qed

lemma peak_upper:
  fixes xs :: "real list"
  assumes "\<forall>v \<in> set xs. \<bar>v\<bar> \<le> c" "p \<le> c"
  shows "fold (\<lambda>v p. if \<bar>v\<bar> > p then \<bar>v\<bar> else p) xs p \<le> c"
  using assms by (induction xs arbitrary: p) simp_all

lemma normalise_unit_peak:
  assumes "\<forall>v \<in> set xs. \<bar>v\<bar> \<le> 1" and "\<exists>v \<in> set xs. \<bar>v\<bar> = 1"
  shows "normalise xs = xs"
proof -
  define peak where "peak = fold (\<lambda>v p. if \<bar>v\<bar> > p then \<bar>v\<bar> else p) xs 0.0001"
  have "peak \<le> 1"
    unfolding peak_def using assms(1) by (intro peak_upper) simp_all
  moreover have "1 \<le> peak"
    unfolding peak_def using assms(2) peak_lower [of "0.0001" xs] by auto
  ultimately have "peak = 1" by simp
  moreover have "normalise xs = map (\<lambda>v. v / peak) xs"
    by (simp only: normalise_def Let_def peak_def)
  ultimately show ?thesis by simp
qed

lemma interp_long_bounded:
  assumes raw: "\<forall>x \<in> set raw. \<bar>x\<bar> \<le> 1" "raw \<noteq> []"
    and pos: "0 < targetLen" "1 \<le> samplesPerFrame"
  shows "\<bar>interp_long raw targetLen samplesPerFrame f s\<bar> \<le> 1"
proof -
  define size_raw where "size_raw = int (length raw)"
  define t where "t = real s / real_of_int targetLen * real_of_int (samplesPerFrame - 1)"
  define i0b where "i0b = (if int f * samplesPerFrame + trunc_int t < 0 then 0
                           else int f * samplesPerFrame + trunc_int t)"
  define i0 where "i0 = (if i0b \<ge> size_raw then size_raw - 1 else i0b)"
  define i1 where "i1 = (if i0 + 1 \<ge> size_raw then size_raw - 1 else i0 + 1)"
  define frac where "frac = t - real_of_int (trunc_int t)"
  have sz: "0 < size_raw" using raw(2) by (simp add: size_raw_def)
  have t0: "0 \<le> t" using pos by (simp add: t_def)
  then have fr: "0 \<le> frac" "frac \<le> 1"
    by (simp_all add: frac_def trunc_int_def) linarith
  have i: "0 \<le> i0" "i0 < size_raw" "0 \<le> i1" "i1 < size_raw"
    using sz by (auto simp: i0_def i0b_def i1_def)
  then have "raw ! nat i0 \<in> set raw" "raw ! nat i1 \<in> set raw"
    by (simp_all add: size_raw_def nat_less_iff)
  then have a: "\<bar>raw ! nat i0\<bar> \<le> 1" "\<bar>raw ! nat i1\<bar> \<le> 1"
    using raw(1) by simp_all
  have "\<bar>raw ! nat i0 * (1 - frac) + raw ! nat i1 * frac\<bar> \<le>
        \<bar>raw ! nat i0\<bar> * (1 - frac) + \<bar>raw ! nat i1\<bar> * frac"
  proof -
    have "\<bar>raw ! nat i0 * (1 - frac)\<bar> = \<bar>raw ! nat i0\<bar> * (1 - frac)"
         "\<bar>raw ! nat i1 * frac\<bar> = \<bar>raw ! nat i1\<bar> * frac"
      using fr by (simp_all add: abs_mult)
    then show ?thesis using abs_triangle_ineq [of "raw ! nat i0 * (1 - frac)" "raw ! nat i1 * frac"]
      by simp
  qed
  also have "\<dots> \<le> 1 * (1 - frac) + 1 * frac"
    using a fr by (intro add_mono mult_right_mono) simp_all
  finally have "\<bar>raw ! nat i0 * (1 - frac) + raw ! nat i1 * frac\<bar> \<le> 1" by simp
  moreover have "interp_long raw targetLen samplesPerFrame f s =
      raw ! nat i0 * (1 - frac) + raw ! nat i1 * frac"
    unfolding interp_long_def Let_def i0_def i0b_def i1_def frac_def t_def size_raw_def ..
  ultimately show ?thesis by simp
qed


text \<open>
  \<open>square_wave_raw\<close> is the content of a float32 mono file of \<open>64 * 2048\<close> samples: \<open>1024\<close>
  samples at \<open>1\<close>, \<open>1024\<close> at \<open>-1\<close>, the rest silent. \<open>square_wave_buf\<close> is what
  \<^verbatim>\<open>WavParser::load\<close> hands to \<^verbatim>\<open>loadWav\<close> for it, and \<open>blank_bank\<close> is a bank of the declared
  dimensions.
\<close>

definition square_wave_raw :: "real list" where
  "square_wave_raw = replicate 1024 1 @ replicate 1024 (- 1) @ replicate (63 * 2048) 0"

definition square_wave_buf :: "real list" where
  "square_wave_buf = WavParser_load square_wave_raw TABLE_SIZE (int NUM_FRAMES)"

definition blank_bank :: WavetableBank where
  "blank_bank =
     \<lparr>tables = replicate 2 (replicate 64 (replicate 10 (replicate 2048 0))), tableReady = True\<rparr>"

lemma blank_bank_shape: "shape_ok blank_bank"
  by (simp add: shape_ok_def blank_bank_def NUM_BANKS_def NUM_FRAMES_def MIP_LEVELS_def
      TABLE_SIZE_def)

lemma square_wave_raw_facts:
  "length square_wave_raw = 131072" "\<forall>x \<in> set square_wave_raw. \<bar>x\<bar> \<le> 1"
  by (auto simp: square_wave_raw_def)

lemma square_wave_resampled:
  "resample square_wave_raw TABLE_SIZE (int NUM_FRAMES) =
     concat (map (\<lambda>f. map (interp_long square_wave_raw 2048 2048 f) [0..<2048]) [0..<64])"
  by (simp add: resample_def Let_def square_wave_raw_facts TABLE_SIZE_def NUM_FRAMES_def
      signed_divide_int_def)

lemma square_wave_frame0:
  assumes "s < 2048"
  shows "resample square_wave_raw TABLE_SIZE (int NUM_FRAMES) ! s =
         interp_long square_wave_raw 2048 2048 0 s"
proof -
  have "[0..<64] = 0 # [1..<64]" by (simp add: upt_conv_Cons)
  then show ?thesis
    using assms by (simp add: square_wave_resampled nth_append)
qed

lemma square_wave_cells:
  "interp_long square_wave_raw 2048 2048 0 1021 = 1"
  "interp_long square_wave_raw 2048 2048 0 1022 = 1"
  "interp_long square_wave_raw 2048 2048 0 1023 = 1"
  "interp_long square_wave_raw 2048 2048 0 1024 = 0"
  "interp_long square_wave_raw 2048 2048 0 1025 = - 1"
  by (simp_all add: interp_long_def Let_def trunc_int_def square_wave_raw_facts
      square_wave_raw_def nth_append)


lemma square_wave_peak:
  "normalise (resample square_wave_raw TABLE_SIZE (int NUM_FRAMES)) =
   resample square_wave_raw TABLE_SIZE (int NUM_FRAMES)"
proof (rule normalise_unit_peak)
  have ne: "square_wave_raw \<noteq> []" by (simp add: square_wave_raw_def)
  show "\<forall>v \<in> set (resample square_wave_raw TABLE_SIZE (int NUM_FRAMES)). \<bar>v\<bar> \<le> 1"
    using interp_long_bounded [OF square_wave_raw_facts(2) ne, of 2048 2048]
    by (auto simp: square_wave_resampled)
  have "interp_long square_wave_raw 2048 2048 0 1021 \<in>
        set (resample square_wave_raw TABLE_SIZE (int NUM_FRAMES))"
    unfolding square_wave_resampled set_concat set_map image_image
    by (rule UN_I [of 0]) simp_all
  then show "\<exists>v \<in> set (resample square_wave_raw TABLE_SIZE (int NUM_FRAMES)). \<bar>v\<bar> = 1"
    unfolding square_wave_cells by (rule bexI [rotated]) simp
qed

lemma square_cells:
  "square_wave_buf ! 1021 = 1" "square_wave_buf ! 1022 = 1" "square_wave_buf ! 1023 = 1"
  "square_wave_buf ! 1024 = 0" "square_wave_buf ! 1025 = - 1"
  by (simp_all add: square_wave_buf_def WavParser_load_def square_wave_peak square_wave_frame0
      square_wave_cells)

lemma loaded_level0:
  "s < 2048 \<Longrightarrow> tables (loadWav 0 (Some square_wave_buf) blank_bank) ! 0 ! 0 ! 0 ! s = square_wave_buf ! s"
  using loadWav_cells(1) [OF blank_bank_shape, of 0 0 s square_wave_buf]
  by (simp add: NUM_BANKS_def NUM_FRAMES_def TABLE_SIZE_def)

text \<open>
  C1. The claim has level \<open>k\<close> at \<open>s\<close> equal the mean of \<open>2 ^ k\<close> neighbouring samples of
  level 0 around \<open>s\<close>. After \<^verbatim>\<open>loadWav\<close> of the square wave, level 2 of frame 0 at
  \<open>s = 1023\<close> is \<open>0\<close>, the mean of the cells \<open>1021\<close> and \<open>1025\<close>. The mean of four
  neighbours around \<open>1023\<close> is \<open>3/4\<close> or \<open>1/4\<close>, depending on where the window starts, and
  the mean of the five cells \<open>1021, \<dots>, 1025\<close> that the loop bounds span is \<open>2/5\<close>.
\<close>

theorem mip_level_is_not_box_average:
  "tables (loadWav 0 (Some square_wave_buf) blank_bank) ! 0 ! 0 ! 2 ! 1023 = 0 \<and>
   box_average (tables (loadWav 0 (Some square_wave_buf) blank_bank) ! 0 ! 0 ! 0) 2 1023 = 3 / 4 \<and>
   window_mean (tables (loadWav 0 (Some square_wave_buf) blank_bank) ! 0 ! 0 ! 0) (1023 - 1) 4 = 1 / 4 \<and>
   window_mean (tables (loadWav 0 (Some square_wave_buf) blank_bank) ! 0 ! 0 ! 0) (1023 - 2) 5 = 2 / 5"
proof -
  have "tables (loadWav 0 (Some square_wave_buf) blank_bank) ! 0 ! 0 ! 2 ! 1023 =
        two_tap (map (\<lambda>s. square_wave_buf ! (0 * nat TABLE_SIZE + s)) [0..<nat TABLE_SIZE]) 2 1023"
    by (rule loadWav_cells(2) [OF blank_bank_shape])
      (simp_all add: NUM_BANKS_def NUM_FRAMES_def TABLE_SIZE_def MIP_LEVELS_def)
  also have "\<dots> = 0"
    by (simp add: two_tap_def TABLE_SIZE_def square_cells)
  finally have code: "tables (loadWav 0 (Some square_wave_buf) blank_bank) ! 0 ! 0 ! 2 ! 1023 = 0" .
  have l4: "[0..<4] = [0, 1, 2, 3]" and l5: "[0..<5] = [0, 1, 2, 3, 4]"
    by (simp_all add: upt_rec)
  show ?thesis
    by (simp add: code box_average_def window_mean_def l4 l5 TABLE_SIZE_def loaded_level0
        square_cells)
qed

end
